theory Spec2Isabelle
  imports Main "HOL-Library.AList" "HOL-Library.Char_ord" "HOL-Library.List_Lexorder"
begin

section \<open>Common vocabulary: outcomes of calls and the cache service interface\<close>

text \<open>
  A call of the TypeScript code either returns a value or throws an \<open>Error\<close> carrying a
  message. Promises are awaited one after the other in the methods embedded below, so a
  rejected promise is the same thing as a throw at the \<open>await\<close>.
\<close>

datatype 'a outcome = Returns 'a | Throws string

text \<open>
  \<open>ICacheService\<close> (interfaces/cache.interface.ts) is the capability a cache tier offers.
  A tier is an arbitrary implementation: each operation reads and changes some world
  \<open>'w\<close> (the contents of every store, shared so that two layers may alias one store) and
  either returns or throws. \<open>null\<close> is \<open>None\<close>. The options object given to \<open>set\<close> is
  built by object spread and never inspected by the callers embedded here; it is left out.
\<close>

record ('k, 'v, 'w) ICacheService =
  svc_get :: "'k \<Rightarrow> 'w \<Rightarrow> 'v option outcome \<times> 'w"
  svc_set :: "'k \<Rightarrow> 'v \<Rightarrow> 'w \<Rightarrow> bool outcome \<times> 'w"
  svc_delete :: "'k \<Rightarrow> 'w \<Rightarrow> bool outcome \<times> 'w"
  svc_clear :: "string option \<Rightarrow> 'w \<Rightarrow> bool outcome \<times> 'w"

text \<open>
  Every call issued to a store is appended to a log together with the store it went to
  (the layer name; the invalidation service has one bound store and logs under the empty
  name) and with what the store answered. The log is what "a write is attempted",
  "no store operation is issued" and "the layer is consulted" are stated about.
\<close>

datatype ('k, 'v) store_call =
    GetCall string 'k "'v option outcome"
  | SetCall string 'k 'v "bool outcome"
  | DeleteCall string 'k "bool outcome"
  | ClearCall string "string option" "bool outcome"

type_synonym ('k, 'v, 'w) sys = "'w \<times> ('k, 'v) store_call list"

definition call_get ::
  "string \<Rightarrow> ('k, 'v, 'w) ICacheService \<Rightarrow> 'k \<Rightarrow> ('k, 'v, 'w) sys \<Rightarrow> 'v option outcome \<times> ('k, 'v, 'w) sys" where
  "call_get n svc k s =
     (case svc_get svc k (fst s) of (r, w') \<Rightarrow> (r, (w', snd s @ [GetCall n k r])))"

definition call_set ::
  "string \<Rightarrow> ('k, 'v, 'w) ICacheService \<Rightarrow> 'k \<Rightarrow> 'v \<Rightarrow> ('k, 'v, 'w) sys \<Rightarrow> bool outcome \<times> ('k, 'v, 'w) sys" where
  "call_set n svc k v s =
     (case svc_set svc k v (fst s) of (r, w') \<Rightarrow> (r, (w', snd s @ [SetCall n k v r])))"

definition call_delete ::
  "string \<Rightarrow> ('k, 'v, 'w) ICacheService \<Rightarrow> 'k \<Rightarrow> ('k, 'v, 'w) sys \<Rightarrow> bool outcome \<times> ('k, 'v, 'w) sys" where
  "call_delete n svc k s =
     (case svc_delete svc k (fst s) of (r, w') \<Rightarrow> (r, (w', snd s @ [DeleteCall n k r])))"

definition call_clear ::
  "string \<Rightarrow> ('k, 'v, 'w) ICacheService \<Rightarrow> string option \<Rightarrow> ('k, 'v, 'w) sys \<Rightarrow> bool outcome \<times> ('k, 'v, 'w) sys" where
  "call_clear n svc ns s =
     (case svc_clear svc ns (fst s) of (r, w') \<Rightarrow> (r, (w', snd s @ [ClearCall n ns r])))"

section \<open>CacheManagerService (services/cache-manager.service.ts)\<close>

text \<open>
  \<open>CacheLayerConfig\<close> after \<open>addLayer\<close> has filled in the defaults of the optional flags.
  \<open>priority\<close> is a JavaScript number; the layers of this repository use whole numbers.
\<close>

record ('k, 'v, 'w) CacheLayerConfig =
  name :: string
  priority :: int
  service :: "('k, 'v, 'w) ICacheService"
  enabled :: bool
  readOnly :: bool
  fallback :: bool

text \<open>
  The manager: the values of the \<open>layers\<close> map in insertion order (the map is keyed by
  layer name), the request and hit counters and the two statistics fields derived from
  them. Timers, the response-time sum, logging and event emission are left out: none of
  them decides which store is called or what is returned.
\<close>

record ('k, 'v, 'w) CacheManagerService =
  layers :: "('k, 'v, 'w) CacheLayerConfig list"
  requestCount :: nat
  hitCount :: nat
  hits :: nat
  misses :: int

text \<open>\<open>this.layers.set(config.name, ...)\<close>: an existing name keeps its place in the map.\<close>

fun put_layer ::
  "('k, 'v, 'w) CacheLayerConfig \<Rightarrow> ('k, 'v, 'w) CacheLayerConfig list \<Rightarrow> ('k, 'v, 'w) CacheLayerConfig list" where
  "put_layer c [] = [c]"
| "put_layer c (l # ls) = (if name l = name c then c # ls else l # put_layer c ls)"

definition addLayer ::
  "('k, 'v, 'w) CacheLayerConfig \<Rightarrow> ('k, 'v, 'w) CacheManagerService \<Rightarrow> bool \<times> ('k, 'v, 'w) CacheManagerService" where
  "addLayer config m = (True, m\<lparr>layers := put_layer config (layers m)\<rparr>)"

definition removeLayer ::
  "string \<Rightarrow> ('k, 'v, 'w) CacheManagerService \<Rightarrow> bool \<times> ('k, 'v, 'w) CacheManagerService" where
  "removeLayer n m =
     (if n \<notin> set (map name (layers m)) then (False, m)
      else (True, m\<lparr>layers := filter (\<lambda>l. name l \<noteq> n) (layers m)\<rparr>))"

definition enableLayer ::
  "string \<Rightarrow> bool \<Rightarrow> ('k, 'v, 'w) CacheManagerService \<Rightarrow> bool \<times> ('k, 'v, 'w) CacheManagerService" where
  "enableLayer n b m =
     (if n \<notin> set (map name (layers m)) then (False, m)
      else (True, m\<lparr>layers := map (\<lambda>l. if name l = n then l\<lparr>enabled := b\<rparr> else l) (layers m)\<rparr>))"

text \<open>
  \<open>getSortedLayers\<close>: the enabled layers, by ascending priority. \<open>Array.prototype.sort\<close> is
  stable and so is \<open>sort_key\<close>.
\<close>

definition getSortedLayers :: "('k, 'v, 'w) CacheManagerService \<Rightarrow> ('k, 'v, 'w) CacheLayerConfig list" where
  "getSortedLayers m = sort_key priority (filter enabled (layers m))"

definition manager_updateStats :: "('k, 'v, 'w) CacheManagerService \<Rightarrow> ('k, 'v, 'w) CacheManagerService" where
  "manager_updateStats m = m\<lparr>hits := hitCount m, misses := int (requestCount m) - int (hitCount m)\<rparr>"

text \<open>
  \<open>promoteToHigherLayer\<close>: \<open>set\<close> on every enabled, writable layer of priority below
  \<open>currentPriority\<close>, in priority order. What a layer answers is ignored and a failure is
  caught inside the loop.

  \<open>get\<close> calls this \<open>async\<close> method without awaiting it. An \<open>async\<close> method runs, when it is
  called, up to its first \<open>await\<close>: the layers are selected and \<open>set\<close> is invoked on the first
  of them; there the method is suspended and \<open>get\<close> goes on to return. The rest of the loop
  runs later, from whatever state the system is in by then. The method is therefore
  embedded in two parts. \<open>promoteToHigherLayer_start\<close> is what runs inside \<open>get\<close>; it hands
  back the suspended rest of the loop: the layers still to be written, the key and the
  value. \<open>settle_promotion\<close> runs that rest. A store answers through a promise
  (\<open>ICacheService\<close>), so a failure is a rejection, which surfaces at the \<open>await\<close> and never in
  \<open>get\<close>; a store call is taken to act when it is invoked.
\<close>

type_synonym ('k, 'v, 'w) pending_promotion = "('k, 'v, 'w) CacheLayerConfig list \<times> 'k \<times> 'v"

fun promote_layers ::
  "('k, 'v, 'w) CacheLayerConfig list \<Rightarrow> 'k \<Rightarrow> 'v \<Rightarrow> ('k, 'v, 'w) sys \<Rightarrow> ('k, 'v, 'w) sys" where
  "promote_layers [] k v s = s"
| "promote_layers (layer # rest) k v s =
     (case call_set (name layer) (service layer) k v s of
        (Returns b, s1) \<Rightarrow> promote_layers rest k v s1
      | (Throws msg, s1) \<Rightarrow> promote_layers rest k v s1)"

definition higherLayers :: "('k, 'v, 'w) CacheManagerService \<Rightarrow> int \<Rightarrow> ('k, 'v, 'w) CacheLayerConfig list" where
  "higherLayers m currentPriority =
     sort_key priority
       (filter (\<lambda>layer. enabled layer \<and> \<not> readOnly layer \<and> priority layer < currentPriority) (layers m))"

definition promoteToHigherLayer_start ::
  "('k, 'v, 'w) CacheManagerService \<Rightarrow> 'k \<Rightarrow> 'v \<Rightarrow> int \<Rightarrow> ('k, 'v, 'w) sys \<Rightarrow>
     ('k, 'v, 'w) sys \<times> ('k, 'v, 'w) pending_promotion option" where
  "promoteToHigherLayer_start m k v currentPriority s =
     (case higherLayers m currentPriority of
        [] \<Rightarrow> (s, None)
      | layer # rest \<Rightarrow>
          (case call_set (name layer) (service layer) k v s of
             (r, s1) \<Rightarrow> (s1, Some (rest, k, v))))"

definition settle_promotion ::
  "('k, 'v, 'w) pending_promotion option \<Rightarrow> ('k, 'v, 'w) sys \<Rightarrow> ('k, 'v, 'w) sys" where
  "settle_promotion pending s =
     (case pending of
        None \<Rightarrow> s
      | Some (rest, k, v) \<Rightarrow> promote_layers rest k v s)"

text \<open>The whole method, as it runs when nothing comes between its two parts.\<close>

definition promoteToHigherLayer ::
  "('k, 'v, 'w) CacheManagerService \<Rightarrow> 'k \<Rightarrow> 'v \<Rightarrow> int \<Rightarrow> ('k, 'v, 'w) sys \<Rightarrow> ('k, 'v, 'w) sys" where
  "promoteToHigherLayer m k v currentPriority s =
     (case promoteToHigherLayer_start m k v currentPriority s of
        (s1, pending) \<Rightarrow> settle_promotion pending s1)"

text \<open>
  The loop of \<open>get\<close> over the sorted layers. A layer's \<open>get\<close> that throws leaves the loop:
  there is no \<open>try\<close> inside it. On a hit the counters are updated, the promotion is
  started when the layer's priority exceeds 1, and the value is returned together with
  the promotion that is still pending.
\<close>

fun get_layers ::
  "('k, 'v, 'w) CacheManagerService \<Rightarrow> ('k, 'v, 'w) CacheLayerConfig list \<Rightarrow> 'k \<Rightarrow> ('k, 'v, 'w) sys \<Rightarrow>
     'v option outcome \<times> ('k, 'v, 'w) CacheManagerService \<times> ('k, 'v, 'w) sys
       \<times> ('k, 'v, 'w) pending_promotion option" where
  "get_layers m [] k s = (Returns None, manager_updateStats m, s, None)"
| "get_layers m (layer # rest) k s =
     (if \<not> enabled layer then get_layers m rest k s
      else
        (case call_get (name layer) (service layer) k s of
           (Throws msg, s1) \<Rightarrow> (Throws msg, m, s1, None)
         | (Returns None, s1) \<Rightarrow> get_layers m rest k s1
         | (Returns (Some v), s1) \<Rightarrow>
             (let m1 = manager_updateStats (m\<lparr>hitCount := hitCount m + 1\<rparr>)
              in if priority layer > 1
                 then (case promoteToHigherLayer_start m1 k v (priority layer) s1 of
                         (s2, pending) \<Rightarrow> (Returns (Some v), m1, s2, pending))
                 else (Returns (Some v), m1, s1, None))))"

text \<open>
  \<open>get\<close>: the \<open>catch\<close> clause around the loop answers \<open>null\<close> for whatever was thrown. The
  last component is the promotion that \<open>get\<close> has started and left pending.
\<close>

definition manager_get ::
  "'k \<Rightarrow> ('k, 'v, 'w) CacheManagerService \<Rightarrow> ('k, 'v, 'w) sys \<Rightarrow>
     'v option outcome \<times> ('k, 'v, 'w) CacheManagerService \<times> ('k, 'v, 'w) sys
       \<times> ('k, 'v, 'w) pending_promotion option" where
  "manager_get k m s =
     (let m0 = m\<lparr>requestCount := requestCount m + 1\<rparr>
      in case get_layers m0 (getSortedLayers m0) k s of
           (Returns r, m1, s1, pending) \<Rightarrow> (Returns r, m1, s1, pending)
         | (Throws msg, m1, s1, pending) \<Rightarrow> (Returns None, m1, s1, pending))"

text \<open>
  The loop of \<open>set\<close>: each enabled, writable layer is written inside its own \<open>try\<close>; a throw
  is logged and the loop goes on.
\<close>

fun set_layers ::
  "('k, 'v, 'w) CacheLayerConfig list \<Rightarrow> 'k \<Rightarrow> 'v \<Rightarrow> bool \<Rightarrow> ('k, 'v, 'w) sys \<Rightarrow> bool \<times> ('k, 'v, 'w) sys" where
  "set_layers [] k v success s = (success, s)"
| "set_layers (layer # rest) k v success s =
     (if \<not> enabled layer \<or> readOnly layer then set_layers rest k v success s
      else
        (case call_set (name layer) (service layer) k v s of
           (Returns layerSuccess, s1) \<Rightarrow> set_layers rest k v (if layerSuccess then True else success) s1
         | (Throws msg, s1) \<Rightarrow> set_layers rest k v success s1))"

definition manager_set ::
  "'k \<Rightarrow> 'v \<Rightarrow> ('k, 'v, 'w) CacheManagerService \<Rightarrow> ('k, 'v, 'w) sys \<Rightarrow>
     bool outcome \<times> ('k, 'v, 'w) CacheManagerService \<times> ('k, 'v, 'w) sys" where
  "manager_set k v m s =
     (case set_layers (getSortedLayers m) k v False s of
        (success, s1) \<Rightarrow> (Returns success, manager_updateStats m, s1))"

text \<open>Reading the call log: the store a call went to, and three tests on a call.\<close>

fun call_layer :: "('k, 'v) store_call \<Rightarrow> string" where
  "call_layer (GetCall n k r) = n"
| "call_layer (SetCall n k v r) = n"
| "call_layer (DeleteCall n k r) = n"
| "call_layer (ClearCall n ns r) = n"

fun is_set_call :: "('k, 'v) store_call \<Rightarrow> bool" where
  "is_set_call (SetCall n k v r) = True"
| "is_set_call c = False"

fun is_set_of :: "'k \<Rightarrow> 'v \<Rightarrow> ('k, 'v) store_call \<Rightarrow> bool" where
  "is_set_of k v (SetCall n k' v' r) = (k' = k \<and> v' = v)"
| "is_set_of k v c = False"

fun set_accepted :: "('k, 'v) store_call \<Rightarrow> bool" where
  "set_accepted (SetCall n k v r) = (r = Returns True)"
| "set_accepted c = False"

fun is_miss :: "'k \<Rightarrow> ('k, 'v) store_call \<Rightarrow> bool" where
  "is_miss k (GetCall n k' r) = (k' = k \<and> r = Returns None)"
| "is_miss k c = False"

text \<open>
  What a started promotion leaves behind after a hit in the layer \<open>L\<close>: the write already
  invoked (\<open>first\<close>, at most one call) and the pending rest.
\<close>

definition promotion_started ::
  "('k, 'v, 'w) CacheManagerService \<Rightarrow> 'k \<Rightarrow> 'v \<Rightarrow> ('k, 'v, 'w) CacheLayerConfig \<Rightarrow>
     ('k, 'v) store_call list \<Rightarrow> ('k, 'v, 'w) pending_promotion option \<Rightarrow> bool" where
  "promotion_started m k v L first pending \<longleftrightarrow>
     (if 1 < priority L then
        (case higherLayers m (priority L) of
           [] \<Rightarrow> first = [] \<and> pending = None
         | t # rest \<Rightarrow> (\<exists>r. first = [SetCall (name t) k v r]) \<and> pending = Some (rest, k, v))
      else first = [] \<and> pending = None)"

text \<open>
  The three ways the loop of \<open>get\<close> can end, read off the calls it issued: every enabled
  layer missed; some layer answered with a value after misses, followed by what the
  started promotion has invoked; or some layer threw after misses, and nothing followed.
\<close>

inductive get_shape ::
  "('k, 'v, 'w) CacheManagerService \<Rightarrow> 'k \<Rightarrow> ('k, 'v, 'w) CacheLayerConfig list \<Rightarrow>
     'v option outcome \<Rightarrow> ('k, 'v) store_call list \<Rightarrow> ('k, 'v, 'w) pending_promotion option \<Rightarrow> bool"
  for m :: "('k, 'v, 'w) CacheManagerService" and k :: 'k where
  all_miss: "list_all (is_miss k) gets \<Longrightarrow> get_shape m k ls (Returns None) gets None"
| hit: "L \<in> set ls \<Longrightarrow> enabled L \<Longrightarrow> list_all (is_miss k) gets \<Longrightarrow>
        promotion_started m k v L first pending \<Longrightarrow>
        get_shape m k ls (Returns (Some v)) (gets @ GetCall (name L) k (Returns (Some v)) # first) pending"
| thrown: "list_all (is_miss k) gets \<Longrightarrow>
        get_shape m k ls (Throws msg) (gets @ [GetCall n k (Throws msg)]) None"

text \<open>The calls issued between two states of the system: the part of the log that was added.\<close>

definition issued :: "('k, 'v, 'w) sys \<Rightarrow> ('k, 'v, 'w) sys \<Rightarrow> ('k, 'v) store_call list" where
  "issued s s' = drop (length (snd s)) (snd s')"

section \<open>CacheInvalidationService (services/cache-invalidation.service.ts)\<close>

text \<open>
  \<open>InvalidationStrategy\<close> is a string enum; at run time any string can arrive (the tests
  pass \<open>'unsupported' as any\<close>), so a strategy is a string and the eight members are
  constants.
\<close>

type_synonym InvalidationStrategy = string

definition EXACT :: InvalidationStrategy where "EXACT = ''exact''"
definition PREFIX :: InvalidationStrategy where "PREFIX = ''prefix''"
definition SUFFIX :: InvalidationStrategy where "SUFFIX = ''suffix''"
definition WILDCARD :: InvalidationStrategy where "WILDCARD = ''wildcard''"
definition REGEX :: InvalidationStrategy where "REGEX = ''regex''"
definition TAG :: InvalidationStrategy where "TAG = ''tag''"
definition NAMESPACE :: InvalidationStrategy where "NAMESPACE = ''namespace''"
definition BATCH :: InvalidationStrategy where "BATCH = ''batch''"

definition InvalidationStrategy_values :: "InvalidationStrategy list" where
  "InvalidationStrategy_values = [EXACT, PREFIX, SUFFIX, WILDCARD, REGEX, TAG, NAMESPACE, BATCH]"

datatype InvalidationTrigger = MANUAL | SCHEDULED | EVENT | CONDITIONAL | DEPENDENCY

text \<open>
  \<open>InvalidationRule\<close>. Dates are clock readings (a natural number); optional fields are
  options. The fields \<open>description\<close>, \<open>schedule\<close>, \<open>eventType\<close>, \<open>tags\<close> and \<open>metadata\<close> are
  carried by the source and read by none of the methods; they are left out.
\<close>

record InvalidationRule =
  rule_id :: string
  rule_name :: string
  strategy :: InvalidationStrategy
  pattern :: string
  trigger :: InvalidationTrigger
  rule_enabled :: bool
  rule_priority :: int
  condition :: "string option"
  dependencies :: "string list option"
  createdAt :: nat
  updatedAt :: nat

text \<open>The \<open>Partial<Omit<InvalidationRule, 'id' | 'createdAt'>>\<close> argument of \<open>updateRule\<close>.\<close>

record RuleUpdates =
  upd_name :: "string option"
  upd_strategy :: "InvalidationStrategy option"
  upd_pattern :: "string option"
  upd_trigger :: "InvalidationTrigger option"
  upd_enabled :: "bool option"
  upd_priority :: "int option"
  upd_condition :: "string option"
  upd_dependencies :: "string list option"

text \<open>
  \<open>InvalidationStats\<close>. The counters are JavaScript numbers used as integers. The
  clock-derived fields \<open>averageExecutionTime\<close> and \<open>lastInvalidation\<close> and the never
  written \<open>triggerUsage\<close> are left out. \<open>strategyUsage\<close> is the object keyed by strategy.
\<close>

record InvalidationStats =
  totalInvalidations :: nat
  successfulInvalidations :: nat
  failedInvalidations :: nat
  totalInvalidatedKeys :: nat
  activeRules :: nat
  strategyUsage :: "(InvalidationStrategy \<times> nat) list"

text \<open>\<open>InvalidationResult\<close> without \<open>invalidatedAt\<close>, \<open>executionTime\<close> and \<open>metadata\<close>.\<close>

record InvalidationResult =
  invalidatedKeys :: nat
  invalidatedNamespaces :: nat
  invalidatedTags :: nat
  keys :: "string list"
  namespaces :: "string list"
  result_tags :: "string list"
  success :: bool
  error :: "string option"

text \<open>
  The service object: the rule \<open>Map\<close> (an association list in insertion order), the bound
  store (\<open>null\<close> until \<open>setCacheService\<close>), the injected key factory (only its \<open>parse\<close> is
  used, and it may throw), \<open>config.batchSize\<close> and the statistics. Logging and event
  emission are left out: \<open>emitEvent\<close> catches what the emitter throws, and the logger is
  taken not to throw. The \<open>strategy\<close> argument of \<open>invalidate\<close> is always given; its default
  \<open>config.defaultStrategy\<close> is the caller's business.
\<close>

record ('k, 'v, 'w) CacheInvalidationService =
  rules :: "(string \<times> InvalidationRule) list"
  cacheService :: "('k, 'v, 'w) ICacheService option"
  keyFactory_parse :: "string \<Rightarrow> 'k outcome"
  batchSize :: nat
  stats :: InvalidationStats

definition initializeStats :: InvalidationStats where
  "initializeStats =
     \<lparr> totalInvalidations = 0, successfulInvalidations = 0, failedInvalidations = 0,
       totalInvalidatedKeys = 0, activeRules = 0,
       strategyUsage = map (\<lambda>s. (s, 0)) InvalidationStrategy_values \<rparr>"

definition setCacheService ::
  "('k, 'v, 'w) ICacheService \<Rightarrow> ('k, 'v, 'w) CacheInvalidationService \<Rightarrow> ('k, 'v, 'w) CacheInvalidationService" where
  "setCacheService svc e = e\<lparr>cacheService := Some svc\<rparr>"

definition getRule :: "('k, 'v, 'w) CacheInvalidationService \<Rightarrow> string \<Rightarrow> InvalidationRule option" where
  "getRule e ruleId = map_of (rules e) ruleId"

text \<open>
  \<open>addRule\<close>: the id is \<open>rule.id || uuidv4()\<close>; \<open>uuid\<close> is what \<open>uuidv4()\<close> returns and \<open>now\<close> the
  reading of \<open>new Date()\<close>. An id that is absent or empty is replaced by the generated one.
\<close>

definition addRule ::
  "InvalidationRule \<Rightarrow> string \<Rightarrow> nat \<Rightarrow> ('k, 'v, 'w) CacheInvalidationService \<Rightarrow> bool \<times> ('k, 'v, 'w) CacheInvalidationService" where
  "addRule rule uuid now e =
     (let ruleId = (if rule_id rule \<noteq> [] then rule_id rule else uuid);
          fullRule = rule\<lparr>rule_id := ruleId, createdAt := now, updatedAt := now\<rparr>
      in (True, e\<lparr>rules := AList.update ruleId fullRule (rules e)\<rparr>))"

text \<open>\<open>removeRule\<close>: the result and the service afterwards.\<close>

definition removeRule ::
  "string \<Rightarrow> ('k, 'v, 'w) CacheInvalidationService \<Rightarrow> bool \<times> ('k, 'v, 'w) CacheInvalidationService" where
  "removeRule ruleId e =
     (if map_of (rules e) ruleId = None then (False, e)
      else (True, e\<lparr>rules := AList.delete ruleId (rules e)\<rparr>))"

definition apply_updates :: "InvalidationRule \<Rightarrow> RuleUpdates \<Rightarrow> nat \<Rightarrow> InvalidationRule" where
  "apply_updates r u now =
     r\<lparr> rule_name := (case upd_name u of Some x \<Rightarrow> x | None \<Rightarrow> rule_name r),
        strategy := (case upd_strategy u of Some x \<Rightarrow> x | None \<Rightarrow> strategy r),
        pattern := (case upd_pattern u of Some x \<Rightarrow> x | None \<Rightarrow> pattern r),
        trigger := (case upd_trigger u of Some x \<Rightarrow> x | None \<Rightarrow> trigger r),
        rule_enabled := (case upd_enabled u of Some x \<Rightarrow> x | None \<Rightarrow> rule_enabled r),
        rule_priority := (case upd_priority u of Some x \<Rightarrow> x | None \<Rightarrow> rule_priority r),
        condition := (case upd_condition u of Some x \<Rightarrow> Some x | None \<Rightarrow> condition r),
        dependencies := (case upd_dependencies u of Some x \<Rightarrow> Some x | None \<Rightarrow> dependencies r),
        updatedAt := now \<rparr>"

text \<open>\<open>updateRule\<close>; \<open>now\<close> is the reading of \<open>new Date()\<close>.\<close>

definition updateRule ::
  "string \<Rightarrow> RuleUpdates \<Rightarrow> nat \<Rightarrow> ('k, 'v, 'w) CacheInvalidationService \<Rightarrow> bool \<times> ('k, 'v, 'w) CacheInvalidationService" where
  "updateRule ruleId u now e =
     (case map_of (rules e) ruleId of
        None \<Rightarrow> (False, e)
      | Some existingRule \<Rightarrow>
          (True, e\<lparr>rules := AList.update ruleId (apply_updates existingRule u now) (rules e)\<rparr>))"

text \<open>
  \<open>updateStats(strategy, executionTime, invalidatedKeys, failed)\<close>, without the running
  average of the execution time.
\<close>

definition updateStats ::
  "InvalidationStrategy \<Rightarrow> nat \<Rightarrow> bool \<Rightarrow> ('k, 'v, 'w) CacheInvalidationService \<Rightarrow> ('k, 'v, 'w) CacheInvalidationService" where
  "updateStats strat n failed e =
     (let st = stats e;
          st1 = st\<lparr>totalInvalidations := totalInvalidations st + 1\<rparr>;
          st2 = (if failed then st1\<lparr>failedInvalidations := failedInvalidations st1 + 1\<rparr>
                 else st1\<lparr>successfulInvalidations := successfulInvalidations st1 + 1,
                          totalInvalidatedKeys := totalInvalidatedKeys st1 + n\<rparr>);
          st3 = st2\<lparr>activeRules := length (filter (\<lambda>(i, r). rule_enabled r) (rules e))\<rparr>;
          st4 = (case map_of (strategyUsage st3) strat of
                   None \<Rightarrow> st3
                 | Some c \<Rightarrow> st3\<lparr>strategyUsage := AList.update strat (c + 1) (strategyUsage st3)\<rparr>)
      in e\<lparr>stats := st4\<rparr>)"

text \<open>
  The per-strategy helpers. Each catches what a single target throws and goes on with
  the next target, so none of them throws. The store is the bound one (\<open>this.cacheService!\<close>).
\<close>

fun invalidateExact ::
  "(string \<Rightarrow> 'k outcome) \<Rightarrow> ('k, 'v, 'w) ICacheService \<Rightarrow> string list \<Rightarrow> ('k, 'v, 'w) sys \<Rightarrow> string list \<times> ('k, 'v, 'w) sys" where
  "invalidateExact parse_fn svc [] s = ([], s)"
| "invalidateExact parse_fn svc (key # rest) s =
     (case parse_fn key of
        Throws msg \<Rightarrow> invalidateExact parse_fn svc rest s
      | Returns cacheKey \<Rightarrow>
          (case call_delete [] svc cacheKey s of
             (Returns deleted, s1) \<Rightarrow>
               (case invalidateExact parse_fn svc rest s1 of
                  (ks, s2) \<Rightarrow> ((if deleted then [key] else []) @ ks, s2))
           | (Throws msg, s1) \<Rightarrow> invalidateExact parse_fn svc rest s1))"

fun invalidatePrefix ::
  "('k, 'v, 'w) ICacheService \<Rightarrow> string list \<Rightarrow> ('k, 'v, 'w) sys \<Rightarrow> string list \<times> ('k, 'v, 'w) sys" where
  "invalidatePrefix svc [] s = ([], s)"
| "invalidatePrefix svc (prefix # rest) s =
     (case call_clear [] svc (Some prefix) s of
        (Returns cleared, s1) \<Rightarrow>
          (case invalidatePrefix svc rest s1 of
             (ks, s2) \<Rightarrow> ((if cleared then [prefix] else []) @ ks, s2))
      | (Throws msg, s1) \<Rightarrow> invalidatePrefix svc rest s1)"

definition invalidateSuffix :: "string list \<Rightarrow> string list" where
  "invalidateSuffix suffixes = []"

definition invalidateWildcard :: "string list \<Rightarrow> string list" where
  "invalidateWildcard patterns = []"

definition invalidateRegex :: "string list \<Rightarrow> string list" where
  "invalidateRegex patterns = []"

definition invalidateTags :: "string list \<Rightarrow> string list" where
  "invalidateTags ts = ts"

fun invalidateNamespaces ::
  "('k, 'v, 'w) ICacheService \<Rightarrow> string list \<Rightarrow> ('k, 'v, 'w) sys \<Rightarrow> string list \<times> ('k, 'v, 'w) sys" where
  "invalidateNamespaces svc [] s = ([], s)"
| "invalidateNamespaces svc (ns # rest) s =
     (case call_clear [] svc (Some ns) s of
        (Returns cleared, s1) \<Rightarrow>
          (case invalidateNamespaces svc rest s1 of
             (ks, s2) \<Rightarrow> ((if cleared then [ns] else []) @ ks, s2))
      | (Throws msg, s1) \<Rightarrow> invalidateNamespaces svc rest s1)"

text \<open>
  \<open>invalidateBatch\<close>: \<open>for (i = 0; i < targets.length; i += batchSize)\<close> over slices. The
  step is \<open>config.batchSize || 100\<close>, hence positive; the loop guard repeats that fact so
  that the recursion is seen to end.
\<close>

function invalidateBatch_from ::
  "(string \<Rightarrow> 'k outcome) \<Rightarrow> ('k, 'v, 'w) ICacheService \<Rightarrow> nat \<Rightarrow> string list \<Rightarrow> nat \<Rightarrow> ('k, 'v, 'w) sys \<Rightarrow> string list \<times> ('k, 'v, 'w) sys" where
  "invalidateBatch_from parse_fn svc bs targets i s =
     (if i < length targets \<and> 0 < bs then
        (case invalidateExact parse_fn svc (take bs (drop i targets)) s of
           (batchKeys, s1) \<Rightarrow>
             (case invalidateBatch_from parse_fn svc bs targets (i + bs) s1 of
                (ks, s2) \<Rightarrow> (batchKeys @ ks, s2)))
      else ([], s))"
  by pat_completeness auto
termination
  by (relation "measure (\<lambda>(parse_fn, svc, bs, targets, i, s). length targets - i)") auto

definition invalidateBatch ::
  "('k, 'v, 'w) CacheInvalidationService \<Rightarrow> ('k, 'v, 'w) ICacheService \<Rightarrow> string list \<Rightarrow> ('k, 'v, 'w) sys \<Rightarrow> string list \<times> ('k, 'v, 'w) sys" where
  "invalidateBatch e svc targets s =
     invalidateBatch_from (keyFactory_parse e) svc
       (if batchSize e = 0 then 100 else batchSize e) targets 0 s"

definition evaluateCondition :: "string \<Rightarrow> bool" where
  "evaluateCondition cond = True"

text \<open>The \<open>string | string[]\<close> argument of \<open>invalidate\<close> and its normalisation.\<close>

datatype invalidation_target = One string | Many "string list"

fun targets_of :: "invalidation_target \<Rightarrow> string list" where
  "targets_of (One t) = [t]"
| "targets_of (Many ts) = ts"

definition empty_result :: InvalidationResult where
  "empty_result =
     \<lparr> invalidatedKeys = 0, invalidatedNamespaces = 0, invalidatedTags = 0,
       keys = [], namespaces = [], result_tags = [], success = False, error = None \<rparr>"

text \<open>
  The \<open>try\<close> block of \<open>invalidate\<close>: the guard on the bound store, the \<open>switch\<close> and the
  bookkeeping after it. It is the only place where the method throws.
\<close>

definition invalidate_try ::
  "string list \<Rightarrow> InvalidationStrategy \<Rightarrow> ('k, 'v, 'w) CacheInvalidationService \<Rightarrow> ('k, 'v, 'w) sys \<Rightarrow>
     InvalidationResult outcome \<times> ('k, 'v, 'w) CacheInvalidationService \<times> ('k, 'v, 'w) sys" where
  "invalidate_try targets strat e s =
     (case cacheService e of
        None \<Rightarrow> (Throws ''Cache service not set'', e, s)
      | Some svc \<Rightarrow>
          (let result = empty_result;
               step =
                 (if strat = EXACT then
                    (case invalidateExact (keyFactory_parse e) svc targets s of
                       (ks, s1) \<Rightarrow> Returns (result\<lparr>keys := ks\<rparr>, s1))
                  else if strat = PREFIX then
                    (case invalidatePrefix svc targets s of
                       (ns, s1) \<Rightarrow> Returns (result\<lparr>namespaces := ns\<rparr>, s1))
                  else if strat = SUFFIX then
                    Returns (result\<lparr>keys := invalidateSuffix targets\<rparr>, s)
                  else if strat = WILDCARD then
                    Returns (result\<lparr>keys := invalidateWildcard targets\<rparr>, s)
                  else if strat = REGEX then
                    Returns (result\<lparr>keys := invalidateRegex targets\<rparr>, s)
                  else if strat = TAG then
                    Returns (result\<lparr>result_tags := invalidateTags targets\<rparr>, s)
                  else if strat = NAMESPACE then
                    (case invalidateNamespaces svc targets s of
                       (ns, s1) \<Rightarrow> Returns (result\<lparr>namespaces := ns\<rparr>, s1))
                  else if strat = BATCH then
                    (case invalidateBatch e svc targets s of
                       (ks, s1) \<Rightarrow> Returns (result\<lparr>keys := ks\<rparr>, s1))
                  else Throws (''Unsupported invalidation strategy: '' @ strat))
           in case step of
                Throws msg \<Rightarrow> (Throws msg, e, s)
              | Returns (r, s1) \<Rightarrow>
                  (let r1 = r\<lparr> invalidatedKeys := length (keys r),
                                invalidatedNamespaces := length (namespaces r),
                                invalidatedTags := length (result_tags r),
                                success := True \<rparr>
                   in (Returns r1, updateStats strat (invalidatedKeys r1) False e, s1))))"

text \<open>
  \<open>invalidate\<close>: the \<open>catch\<close> clause turns whatever the \<open>try\<close> block threw into a returned
  result with \<open>success: false\<close> and the message, after counting the failure.
\<close>

definition invalidate ::
  "invalidation_target \<Rightarrow> InvalidationStrategy \<Rightarrow> ('k, 'v, 'w) CacheInvalidationService \<Rightarrow> ('k, 'v, 'w) sys \<Rightarrow>
     InvalidationResult outcome \<times> ('k, 'v, 'w) CacheInvalidationService \<times> ('k, 'v, 'w) sys" where
  "invalidate target strat e s =
     (case invalidate_try (targets_of target) strat e s of
        (Returns r, e1, s1) \<Rightarrow> (Returns r, e1, s1)
      | (Throws msg, e1, s1) \<Rightarrow>
          (Returns (empty_result\<lparr>error := Some msg\<rparr>), updateStats strat 0 True e1, s1))"

text \<open>The dependency loop of \<open>invalidateByRule\<close>: true when some dependency is missing or disabled.\<close>

fun dependency_unsatisfied :: "('k, 'v, 'w) CacheInvalidationService \<Rightarrow> string list \<Rightarrow> bool" where
  "dependency_unsatisfied e [] = False"
| "dependency_unsatisfied e (depId # rest) =
     (case getRule e depId of
        None \<Rightarrow> True
      | Some depRule \<Rightarrow> (if \<not> rule_enabled depRule then True else dependency_unsatisfied e rest))"

definition invalidateByRule ::
  "string \<Rightarrow> ('k, 'v, 'w) CacheInvalidationService \<Rightarrow> ('k, 'v, 'w) sys \<Rightarrow>
     InvalidationResult outcome \<times> ('k, 'v, 'w) CacheInvalidationService \<times> ('k, 'v, 'w) sys" where
  "invalidateByRule ruleId e s =
     (case getRule e ruleId of
        None \<Rightarrow> (Throws (''Invalidation rule not found: '' @ ruleId), e, s)
      | Some rule \<Rightarrow>
          if \<not> rule_enabled rule then
            (Returns (empty_result\<lparr>error := Some ''Rule is disabled''\<rparr>), e, s)
          else if (case condition rule of
                     None \<Rightarrow> False
                   | Some c \<Rightarrow> c \<noteq> [] \<and> \<not> evaluateCondition c) then
            (Returns (empty_result\<lparr>error := Some ''Condition not met''\<rparr>), e, s)
          else if (case dependencies rule of
                     None \<Rightarrow> False
                   | Some deps \<Rightarrow> dependency_unsatisfied e deps) then
            (Returns (empty_result\<lparr>error := Some ''Dependency not satisfied''\<rparr>), e, s)
          else invalidate (One (pattern rule)) (strategy rule) e s)"

text \<open>
  A sequence of calls made by a client of the service. A call of \<open>invalidateByRule\<close> that
  throws (unknown rule) leaves the service as it was and the client goes on.
\<close>

datatype engine_call =
    InvalidateCall invalidation_target InvalidationStrategy
  | InvalidateByRuleCall string

fun run_call ::
  "engine_call \<Rightarrow> ('k, 'v, 'w) CacheInvalidationService \<times> ('k, 'v, 'w) sys \<Rightarrow>
     ('k, 'v, 'w) CacheInvalidationService \<times> ('k, 'v, 'w) sys" where
  "run_call (InvalidateCall t strat) (e, s) = snd (invalidate t strat e s)"
| "run_call (InvalidateByRuleCall ruleId) (e, s) = snd (invalidateByRule ruleId e s)"

fun run_calls ::
  "engine_call list \<Rightarrow> ('k, 'v, 'w) CacheInvalidationService \<times> ('k, 'v, 'w) sys \<Rightarrow>
     ('k, 'v, 'w) CacheInvalidationService \<times> ('k, 'v, 'w) sys" where
  "run_calls [] es = es"
| "run_calls (c # cs) es = run_calls cs (run_call c es)"

definition stats_consistent :: "InvalidationStats \<Rightarrow> bool" where
  "stats_consistent st \<longleftrightarrow>
     totalInvalidations st = successfulInvalidations st + failedInvalidations st"

text \<open>
  Whether \<open>invalidateByRule\<close> gets past its three gates (rule enabled, condition met,
  every dependency present and enabled) and hands over to \<open>invalidate\<close>.
\<close>

definition rule_fires :: "('k, 'v, 'w) CacheInvalidationService \<Rightarrow> string \<Rightarrow> bool" where
  "rule_fires e ruleId =
     (case getRule e ruleId of
        None \<Rightarrow> False
      | Some rule \<Rightarrow>
          rule_enabled rule
          \<and> \<not> (case condition rule of None \<Rightarrow> False | Some c \<Rightarrow> c \<noteq> [] \<and> \<not> evaluateCondition c)
          \<and> \<not> (case dependencies rule of None \<Rightarrow> False | Some deps \<Rightarrow> dependency_unsatisfied e deps))"

section \<open>CacheKeyFactory (factories/cache-key.factory.ts)\<close>

text \<open>
  \<open>CacheKey\<close>. An optional field is an option; \<open>create\<close> always sets \<open>tags\<close> to an array, so
  \<open>tags\<close> is a list. Strings are lists of 8-bit characters, which covers every sanitized
  key, namespace, identifier and tag.
\<close>

record CacheKey =
  key :: string
  namespace :: "string option"
  version :: "string option"
  tenantId :: "string option"
  userId :: "string option"
  tags :: "string list"

text \<open>The \<open>Partial<CacheKey>\<close> options of \<open>create\<close>.\<close>

record CacheKeyOptions =
  opt_namespace :: "string option"
  opt_version :: "string option"
  opt_tenantId :: "string option"
  opt_userId :: "string option"
  opt_tags :: "string list option"

text \<open>
  \<open>String.prototype.split\<close> with a one-character separator, \<open>Array.prototype.join\<close>,
  \<open>startsWith\<close> and \<open>trim\<close>. Splitting the empty string gives one empty part. \<open>trim\<close>
  strips the white space that exists among 8-bit characters: tab, line feed, vertical
  tab, form feed, carriage return, space and no-break space.
\<close>

fun split_on :: "char \<Rightarrow> string \<Rightarrow> string list" where
  "split_on sep [] = [[]]"
| "split_on sep (c # cs) =
     (if c = sep then [] # split_on sep cs
      else (case split_on sep cs of
              [] \<Rightarrow> [[c]]
            | p # ps \<Rightarrow> (c # p) # ps))"

fun join_with :: "string \<Rightarrow> string list \<Rightarrow> string" where
  "join_with sep [] = []"
| "join_with sep [p] = p"
| "join_with sep (p # q # ps) = p @ sep @ join_with sep (q # ps)"

fun startsWith :: "string \<Rightarrow> string \<Rightarrow> bool" where
  "startsWith s [] = True"
| "startsWith [] (p # ps) = False"
| "startsWith (c # cs) (p # ps) = (c = p \<and> startsWith cs ps)"

definition is_whitespace :: "char \<Rightarrow> bool" where
  "is_whitespace c \<longleftrightarrow> c \<in> set [CHR 0x09, CHR 0x0A, CHR 0x0B, CHR 0x0C, CHR 0x0D, CHR 0x20, CHR 0xA0]"

definition trim :: "string \<Rightarrow> string" where
  "trim s = rev (dropWhile is_whitespace (rev (dropWhile is_whitespace s)))"

text \<open>The character class \<open>[a-zA-Z0-9\-_.]\<close> of \<open>sanitizeKey\<close>.\<close>

definition key_char :: "char \<Rightarrow> bool" where
  "key_char c \<longleftrightarrow>
     (CHR ''a'' \<le> c \<and> c \<le> CHR ''z'') \<or> (CHR ''A'' \<le> c \<and> c \<le> CHR ''Z'')
     \<or> (CHR ''0'' \<le> c \<and> c \<le> CHR ''9'') \<or> c = CHR ''-'' \<or> c = CHR ''_'' \<or> c = CHR ''.''"

definition sanitizeKey :: "string \<Rightarrow> string outcome" where
  "sanitizeKey k =
     (if k = [] then Throws ''Cache key must be a non-empty string''
      else
        (let sanitized = map (\<lambda>c. if key_char c then c else CHR ''_'') (trim k)
         in if length sanitized = 0 then Throws ''Cache key cannot be empty after sanitization''
            else Returns sanitized))"

text \<open>\<open>create\<close>: only the key is sanitized; the options are copied as given.\<close>

definition create :: "string \<Rightarrow> CacheKeyOptions option \<Rightarrow> CacheKey outcome" where
  "create k options =
     (case sanitizeKey k of
        Throws msg \<Rightarrow> Throws msg
      | Returns sk \<Rightarrow>
          Returns \<lparr> key = sk,
                    namespace = (case options of None \<Rightarrow> None | Some opts \<Rightarrow> opt_namespace opts),
                    version = (case options of None \<Rightarrow> None | Some opts \<Rightarrow> opt_version opts),
                    tenantId = (case options of None \<Rightarrow> None | Some opts \<Rightarrow> opt_tenantId opts),
                    userId = (case options of None \<Rightarrow> None | Some opts \<Rightarrow> opt_userId opts),
                    tags = (case options of
                              None \<Rightarrow> []
                            | Some opts \<Rightarrow> (case opt_tags opts of None \<Rightarrow> [] | Some ts \<Rightarrow> ts)) \<rparr>)"

text \<open>A field test \<open>if (cacheKey.version)\<close>: the field is there and is not the empty string.\<close>

fun truthy :: "string option \<Rightarrow> bool" where
  "truthy None = False"
| "truthy (Some s) = (s \<noteq> [])"

text \<open>
  \<open>toString\<close>. \<open>cacheKey.tags.sort()\<close> sorts the tag array of the argument in place (by
  code units, which is the lexicographic order of the character lists), so the method
  returns the string and leaves the key with its tags sorted; when the tag array is
  empty it is not touched.
\<close>

definition toString :: "CacheKey \<Rightarrow> string \<times> CacheKey" where
  "toString cacheKey =
     (let parts0 = [];
          parts1 = (if truthy (version cacheKey) then parts0 @ [the (version cacheKey)] else parts0);
          parts2 = (if truthy (namespace cacheKey) then parts1 @ [the (namespace cacheKey)] else parts1);
          parts3 = (if truthy (tenantId cacheKey) then parts2 @ [''tenant:'' @ the (tenantId cacheKey)] else parts2);
          parts4 = (if truthy (userId cacheKey) then parts3 @ [''user:'' @ the (userId cacheKey)] else parts3);
          sorted_tags = sort (tags cacheKey);
          parts5 = (if length (tags cacheKey) > 0 then parts4 @ [''tags:'' @ join_with '','' sorted_tags] else parts4);
          parts6 = parts5 @ [key cacheKey]
      in (join_with '':'' parts6, cacheKey\<lparr>tags := sorted_tags\<rparr>))"

text \<open>
  \<open>parse\<close>, block by block. Each block takes the key built so far and \<open>currentIndex\<close> and
  returns both. Every read \<open>parts[i]\<close> is guarded by \<open>i < parts.length\<close> as in the source.
\<close>

definition parse_version :: "string list \<Rightarrow> CacheKey \<times> nat \<Rightarrow> CacheKey \<times> nat" where
  "parse_version parts st =
     (case st of (cacheKey, currentIndex) \<Rightarrow>
        if length parts > 0 \<and> startsWith (parts ! 0) ''v''
        then (cacheKey\<lparr>version := Some (parts ! currentIndex)\<rparr>, currentIndex + 1)
        else (cacheKey, currentIndex))"

definition parse_namespace :: "string list \<Rightarrow> CacheKey \<times> nat \<Rightarrow> CacheKey \<times> nat" where
  "parse_namespace parts st =
     (case st of (cacheKey, currentIndex) \<Rightarrow>
        if currentIndex < length parts
           \<and> parts ! currentIndex \<noteq> ''tenant''
           \<and> parts ! currentIndex \<noteq> ''user''
           \<and> parts ! currentIndex \<noteq> ''tags''
           \<and> int currentIndex < int (length parts) - 1
        then (cacheKey\<lparr>namespace := Some (parts ! currentIndex)\<rparr>, currentIndex + 1)
        else (cacheKey, currentIndex))"

definition parse_tenant :: "string list \<Rightarrow> CacheKey \<times> nat \<Rightarrow> CacheKey \<times> nat" where
  "parse_tenant parts st =
     (case st of (cacheKey, currentIndex) \<Rightarrow>
        if currentIndex < length parts \<and> parts ! currentIndex = ''tenant''
        then (if currentIndex + 1 < length parts
              then (cacheKey\<lparr>tenantId := Some (parts ! (currentIndex + 1))\<rparr>, currentIndex + 2)
              else (cacheKey, currentIndex + 1))
        else (cacheKey, currentIndex))"

definition parse_user :: "string list \<Rightarrow> CacheKey \<times> nat \<Rightarrow> CacheKey \<times> nat" where
  "parse_user parts st =
     (case st of (cacheKey, currentIndex) \<Rightarrow>
        if currentIndex < length parts \<and> parts ! currentIndex = ''user''
        then (if currentIndex + 1 < length parts
              then (cacheKey\<lparr>userId := Some (parts ! (currentIndex + 1))\<rparr>, currentIndex + 2)
              else (cacheKey, currentIndex + 1))
        else (cacheKey, currentIndex))"

definition parse_tags :: "string list \<Rightarrow> CacheKey \<times> nat \<Rightarrow> CacheKey \<times> nat" where
  "parse_tags parts st =
     (case st of (cacheKey, currentIndex) \<Rightarrow>
        if currentIndex < length parts \<and> parts ! currentIndex = ''tags''
        then (if currentIndex + 1 < length parts
              then (let tagsString = parts ! (currentIndex + 1)
                    in (cacheKey\<lparr>tags := filter (\<lambda>tag. length tag > 0) (split_on CHR '','' tagsString)\<rparr>,
                        currentIndex + 2))
              else (cacheKey, currentIndex + 1))
        else (cacheKey, currentIndex))"

definition parse_rest :: "string list \<Rightarrow> CacheKey \<times> nat \<Rightarrow> CacheKey" where
  "parse_rest parts st =
     (case st of (cacheKey, currentIndex) \<Rightarrow>
        if currentIndex < length parts
        then cacheKey\<lparr>key := join_with '':'' (drop currentIndex parts)\<rparr>
        else cacheKey)"

definition parse :: "string \<Rightarrow> CacheKey" where
  "parse keyString =
     (let parts = split_on CHR '':'' keyString;
          cacheKey = \<lparr> key = [], namespace = None, version = None, tenantId = None,
                       userId = None, tags = [] \<rparr>
      in parse_rest parts
           (parse_tags parts (parse_user parts (parse_tenant parts
              (parse_namespace parts (parse_version parts (cacheKey, 0)))))))"

text \<open>
  The keys on which \<open>parse\<close> undoes \<open>toString\<close>. The separator occurs in no field (a
  sanitized key, namespace, identifier or tag has none); a field that is present is not
  empty; a version starts with \<open>v\<close>, since that is how \<open>parse\<close> recognises one; a namespace
  is none of the block markers \<open>tenant\<close>, \<open>user\<close>, \<open>tags\<close>; no tag holds a comma; when no
  version is given, what comes first in the string (the namespace, or the key when it
  stands alone) does not start with \<open>v\<close>; and the key is a block marker only when
  \<open>parse\<close> is past that block on reaching it: \<open>tenant\<close> only after a tenant, user or tags
  block, \<open>user\<close> only after a user or tags block, \<open>tags\<close> only after a tags block.
\<close>

definition no_colon :: "string \<Rightarrow> bool" where
  "no_colon s \<longleftrightarrow> CHR '':'' \<notin> set s"

definition reserved :: "string \<Rightarrow> bool" where
  "reserved s \<longleftrightarrow> s = ''tenant'' \<or> s = ''user'' \<or> s = ''tags''"

definition parseable :: "CacheKey \<Rightarrow> bool" where
  "parseable k \<longleftrightarrow>
     key k \<noteq> [] \<and> no_colon (key k)
     \<and> (key k = ''tenant'' \<longrightarrow> tenantId k \<noteq> None \<or> userId k \<noteq> None \<or> tags k \<noteq> [])
     \<and> (key k = ''user'' \<longrightarrow> userId k \<noteq> None \<or> tags k \<noteq> [])
     \<and> (key k = ''tags'' \<longrightarrow> tags k \<noteq> [])
     \<and> (case version k of None \<Rightarrow> True | Some v \<Rightarrow> startsWith v ''v'' \<and> no_colon v)
     \<and> (case namespace k of
           None \<Rightarrow> True
         | Some n \<Rightarrow> n \<noteq> [] \<and> no_colon n \<and> \<not> reserved n
                     \<and> (version k = None \<longrightarrow> \<not> startsWith n ''v''))
     \<and> (case tenantId k of None \<Rightarrow> True | Some t \<Rightarrow> t \<noteq> [] \<and> no_colon t)
     \<and> (case userId k of None \<Rightarrow> True | Some u \<Rightarrow> u \<noteq> [] \<and> no_colon u)
     \<and> list_all (\<lambda>t. t \<noteq> [] \<and> no_colon t \<and> CHR '','' \<notin> set t) (tags k)
     \<and> (version k = None \<and> namespace k = None \<and> tenantId k = None \<and> userId k = None
          \<and> tags k = [] \<longrightarrow> \<not> startsWith (key k) ''v'')"

text \<open>
  The keys whose fields are well formed, whatever their words: the key is not empty, a
  field that is present is not empty, no field holds the separator and no tag a comma.
  Every key that \<open>create\<close> returns has such a key field, and \<open>toString\<close> leaves out a field
  that is empty.
\<close>

definition plain_fields :: "CacheKey \<Rightarrow> bool" where
  "plain_fields k \<longleftrightarrow>
     key k \<noteq> [] \<and> no_colon (key k)
     \<and> (case version k of None \<Rightarrow> True | Some v \<Rightarrow> v \<noteq> [] \<and> no_colon v)
     \<and> (case namespace k of None \<Rightarrow> True | Some n \<Rightarrow> n \<noteq> [] \<and> no_colon n)
     \<and> (case tenantId k of None \<Rightarrow> True | Some t \<Rightarrow> t \<noteq> [] \<and> no_colon t)
     \<and> (case userId k of None \<Rightarrow> True | Some u \<Rightarrow> u \<noteq> [] \<and> no_colon u)
     \<and> list_all (\<lambda>t. t \<noteq> [] \<and> no_colon t \<and> CHR '','' \<notin> set t) (tags k)"

text \<open>What \<open>parse\<close> does with the list of segments, once the string is split.\<close>

definition parse_parts :: "string list \<Rightarrow> CacheKey" where
  "parse_parts parts =
     parse_rest parts (parse_tags parts (parse_user parts (parse_tenant parts
       (parse_namespace parts (parse_version parts
          (\<lparr> key = [], namespace = None, version = None, tenantId = None,
              userId = None, tags = [] \<rparr>, 0))))))"

text \<open>
  The segments of the canonical string of a key: the version, the namespace, the marker
  \<open>tenant\<close> and the tenant, the marker \<open>user\<close> and the user, the marker \<open>tags\<close> and the sorted,
  comma-joined tags, each there when the field is, and the key last.
\<close>

definition segments :: "CacheKey \<Rightarrow> string list" where
  "segments k =
     (case version k of None \<Rightarrow> [] | Some v \<Rightarrow> [v])
     @ (case namespace k of None \<Rightarrow> [] | Some n \<Rightarrow> [n])
     @ (case tenantId k of None \<Rightarrow> [] | Some t \<Rightarrow> [''tenant'', t])
     @ (case userId k of None \<Rightarrow> [] | Some u \<Rightarrow> [''user'', u])
     @ (if tags k = [] then [] else [''tags'', join_with '','' (sort (tags k))])
     @ [key k]"

text \<open>The complex key of the factory's spec file and the key made from the word \<open>value\<close>.\<close>

definition complex_key :: CacheKey where
  "complex_key =
     \<lparr> key = ''test-key'', namespace = Some ''test-namespace'', version = Some ''v2'',
       tenantId = Some ''tenant-123'', userId = Some ''user-456'', tags = [''tag2'', ''tag1''] \<rparr>"

definition value_key :: CacheKey where
  "value_key =
     \<lparr> key = ''value'', namespace = None, version = None, tenantId = None, userId = None,
       tags = [] \<rparr>"

text \<open>What \<open>createUser('u1', 'tenant')\<close> returns: a key that is itself a marker word.\<close>

definition marker_key :: CacheKey where
  "marker_key =
     \<lparr> key = ''tenant'', namespace = None, version = None, tenantId = None, userId = Some ''u1'',
       tags = [] \<rparr>"

section \<open>Test doubles of the spec files, used for concrete evaluations\<close>

text \<open>
  \<open>MockCacheService\<close> of the spec files: a map that always accepts a write, reports on
  delete whether the key was there, and clears everything whatever the namespace. Here
  the map of the store called \<open>n\<close> is the part of a shared association list whose keys
  carry the name \<open>n\<close>. \<open>errorLayer_service\<close> is the store of the "should handle layer errors
  gracefully" test: every operation rejects with \<open>'Layer error'\<close>.
\<close>

definition MockCacheService :: "string \<Rightarrow> ('k, 'v, ((string \<times> 'k) \<times> 'v) list) ICacheService" where
  "MockCacheService n =
     \<lparr> svc_get = (\<lambda>k w. (Returns (map_of w (n, k)), w)),
       svc_set = (\<lambda>k v w. (Returns True, AList.update (n, k) v w)),
       svc_delete = (\<lambda>k w. (Returns (map_of w (n, k) \<noteq> None), AList.delete (n, k) w)),
       svc_clear = (\<lambda>ns w. (Returns True, filter (\<lambda>p. fst (fst p) \<noteq> n) w)) \<rparr>"

definition errorLayer_service :: "('k, 'v, 'w) ICacheService" where
  "errorLayer_service =
     \<lparr> svc_get = (\<lambda>k w. (Throws ''Layer error'', w)),
       svc_set = (\<lambda>k v w. (Throws ''Layer error'', w)),
       svc_delete = (\<lambda>k w. (Throws ''Layer error'', w)),
       svc_clear = (\<lambda>ns w. (Throws ''Layer error'', w)) \<rparr>"

text \<open>The disabled rule of the "should handle disabled rule" test, stored under the id \<open>r1\<close>.\<close>

definition disabled_rule :: InvalidationRule where
  "disabled_rule =
     \<lparr> rule_id = ''r1'', rule_name = ''disabled-rule'', strategy = EXACT, pattern = ''key1'',
       trigger = MANUAL, rule_enabled = False, rule_priority = 1, condition = None,
       dependencies = None, createdAt = 0, updatedAt = 0 \<rparr>"

text \<open>A service as the spec file sets it up: a bound mock store, one rule, fresh statistics.\<close>

definition test_service ::
  "(string, string, ((string \<times> string) \<times> string) list) CacheInvalidationService" where
  "test_service =
     \<lparr> rules = [(''r1'', disabled_rule)],
       cacheService = Some (MockCacheService ''store''),
       keyFactory_parse = Returns,
       batchSize = 100,
       stats = initializeStats \<rparr>"

text \<open>The service of the "should handle cache service not set" test: nothing bound.\<close>

definition serviceWithoutCache ::
  "(string, string, ((string \<times> string) \<times> string) list) CacheInvalidationService" where
  "serviceWithoutCache = test_service\<lparr>cacheService := None\<rparr>"

definition test_sys :: "(string, string, ((string \<times> string) \<times> string) list) sys" where
  "test_sys = ([((''store'', ''key1''), ''value1'')], [])"

text \<open>
  Layers for concrete evaluations, as the manager's spec file builds them: a mock store
  under a name and a priority, the error layer (every operation rejects), and a store
  that reads like the mock but rejects every write.
\<close>

type_synonym test_world = "((string \<times> string) \<times> string) list"

definition mock_layer :: "string \<Rightarrow> int \<Rightarrow> (string, string, test_world) CacheLayerConfig" where
  "mock_layer n p =
     \<lparr> name = n, priority = p, service = MockCacheService n,
       enabled = True, readOnly = False, fallback = False \<rparr>"

definition error_layer :: "string \<Rightarrow> int \<Rightarrow> (string, string, test_world) CacheLayerConfig" where
  "error_layer n p =
     \<lparr> name = n, priority = p, service = errorLayer_service,
       enabled = True, readOnly = False, fallback = False \<rparr>"

definition writeFailing_layer :: "string \<Rightarrow> int \<Rightarrow> (string, string, test_world) CacheLayerConfig" where
  "writeFailing_layer n p =
     \<lparr> name = n, priority = p,
       service = (MockCacheService n)\<lparr>svc_set := (\<lambda>k v w. (Throws ''Layer error'', w))\<rparr>,
       enabled = True, readOnly = False, fallback = False \<rparr>"

definition manager_of :: "(string, string, test_world) CacheLayerConfig list \<Rightarrow> (string, string, test_world) CacheManagerService" where
  "manager_of ls = \<lparr> layers = ls, requestCount = 0, hitCount = 0, hits = 0, misses = 0 \<rparr>"

text \<open>The key \<open>K\<close> with value \<open>V\<close> held by the store called \<open>layer2\<close> only, and by \<open>layer1\<close> only.\<close>

definition world_layer2 :: "(string, string, test_world) sys" where
  "world_layer2 = ([((''layer2'', ''K''), ''V'')], [])"

definition world_layer1 :: "(string, string, test_world) sys" where
  "world_layer1 = ([((''layer1'', ''K''), ''V'')], [])"

text \<open>
  A manager with seven layers, added out of priority order: the layer of the hit
  (\<open>layer3\<close>, holding \<open>K\<close>), three promotion targets of priorities 0, 1 and 2, the first of
  which rejects every write, a read-only layer and a disabled layer of lower priority, and
  a layer of the same priority as the hit. The state after the read follows.
\<close>

definition tiered_manager :: "(string, string, test_world) CacheManagerService" where
  "tiered_manager =
     manager_of [mock_layer ''layer3'' 3, mock_layer ''layer2'' 2,
                 (mock_layer ''readonly-layer'' 1)\<lparr>readOnly := True\<rparr>, mock_layer ''layer1'' 1,
                 (mock_layer ''disabled-layer'' 0)\<lparr>enabled := False\<rparr>,
                 writeFailing_layer ''layer0'' 0, mock_layer ''peer-layer'' 3]"

definition world_layer3 :: "(string, string, test_world) sys" where
  "world_layer3 = ([((''layer3'', ''K''), ''V'')], [])"

definition after_get_layer3 :: "(string, string, test_world) sys" where
  "after_get_layer3 =
     ([((''layer3'', ''K''), ''V'')],
      [GetCall ''layer0'' ''K'' (Returns None), GetCall ''readonly-layer'' ''K'' (Returns None),
       GetCall ''layer1'' ''K'' (Returns None), GetCall ''layer2'' ''K'' (Returns None),
       GetCall ''layer3'' ''K'' (Returns (Some ''V'')),
       SetCall ''layer0'' ''K'' ''V'' (Throws ''Layer error'')])"

section \<open>Properties of the invalidation service\<close>

lemma updateStats_total:
  "totalInvalidations (stats (updateStats strat n f e)) = totalInvalidations (stats e) + 1"
  by (simp add: updateStats_def Let_def split: option.splits)

lemma updateStats_successful:
  "successfulInvalidations (stats (updateStats strat n f e)) =
     successfulInvalidations (stats e) + (if f then 0 else 1)"
  by (simp add: updateStats_def Let_def split: option.splits)

lemma updateStats_failed:
  "failedInvalidations (stats (updateStats strat n f e)) =
     failedInvalidations (stats e) + (if f then 1 else 0)"
  by (simp add: updateStats_def Let_def split: option.splits)

lemma unsupported_iff:
  "strat \<notin> set InvalidationStrategy_values \<longleftrightarrow>
     strat \<noteq> EXACT \<and> strat \<noteq> PREFIX \<and> strat \<noteq> SUFFIX \<and> strat \<noteq> WILDCARD \<and>
     strat \<noteq> REGEX \<and> strat \<noteq> TAG \<and> strat \<noteq> NAMESPACE \<and> strat \<noteq> BATCH"
  by (auto simp: InvalidationStrategy_values_def)

lemmas strategy_defs =
  EXACT_def PREFIX_def SUFFIX_def WILDCARD_def REGEX_def TAG_def NAMESPACE_def BATCH_def

text \<open>
  Claim C5, as amended. For a strategy outside the eight supported ones, given to a service
  with a bound store, \<open>invalidate\<close> does not throw: the error raised in the \<open>switch\<close> is
  caught by the method's own handler, and the caller receives a result with
  \<open>success = false\<close>, the message \<open>Unsupported invalidation strategy: <strategy>\<close>, all
  counts zero; the failure is counted and no store call is issued.
\<close>

theorem invalidate_unsupported_strategy_returns_failure:
  assumes "strat \<notin> set InvalidationStrategy_values" and "cacheService e = Some svc"
  shows "invalidate t strat e s =
           (Returns (empty_result\<lparr>error := Some (''Unsupported invalidation strategy: '' @ strat)\<rparr>),
            updateStats strat 0 True e, s)"
  using assms unfolding unsupported_iff
  by (simp add: invalidate_def invalidate_try_def)

theorem invalidate_unsupported_strategy_returns_failure_witness:
  "''unsupported'' \<notin> set InvalidationStrategy_values
   \<and> cacheService test_service = Some (MockCacheService ''store'')
   \<and> invalidate (Many [''key1'']) ''unsupported'' test_service test_sys =
        (Returns (empty_result\<lparr>error := Some (''Unsupported invalidation strategy: '' @ ''unsupported'')\<rparr>),
         updateStats ''unsupported'' 0 True test_service, test_sys)"
proof -
  have a: "''unsupported'' \<notin> set InvalidationStrategy_values"
    by (simp add: InvalidationStrategy_values_def strategy_defs)
  have b: "cacheService test_service = Some (MockCacheService ''store'')"
    by (simp add: test_service_def)
  show ?thesis
    using a b invalidate_unsupported_strategy_returns_failure [OF a b, of "Many [''key1'']" test_sys]
    by simp
qed

text \<open>
  The claim C5 as written fails: with the strategy \<open>unsupported\<close> of the spec file's own
  test, the call returns a result object (\<open>success = false\<close>) instead of throwing.
\<close>

theorem invalidate_unsupported_strategy_counterexample:
  "''unsupported'' \<notin> set InvalidationStrategy_values
   \<and> fst (invalidate (Many [''key1'']) ''unsupported'' test_service test_sys) =
        Returns \<lparr> invalidatedKeys = 0, invalidatedNamespaces = 0, invalidatedTags = 0,
                  keys = [], namespaces = [], result_tags = [], success = False,
                  error = Some ''Unsupported invalidation strategy: unsupported'' \<rparr>"
  by (simp add: InvalidationStrategy_values_def strategy_defs invalidate_def invalidate_try_def
      test_service_def empty_result_def)

text \<open>
  Claim C6, as amended. While no store is bound, \<open>invalidate\<close> does not throw: the
  \<open>Cache service not set\<close> error is caught by the method's own handler and the caller
  receives a result with \<open>success = false\<close> and that message; the failure is counted and
  no store call is issued (world and call log are unchanged).
\<close>

theorem invalidate_without_store_returns_failure:
  assumes "cacheService e = None"
  shows "invalidate t strat e s =
           (Returns (empty_result\<lparr>error := Some ''Cache service not set''\<rparr>),
            updateStats strat 0 True e, s)"
  using assms by (simp add: invalidate_def invalidate_try_def)

theorem invalidate_without_store_returns_failure_witness:
  "cacheService serviceWithoutCache = None
   \<and> invalidate (Many [''key1'']) EXACT serviceWithoutCache test_sys =
        (Returns (empty_result\<lparr>error := Some ''Cache service not set''\<rparr>),
         updateStats EXACT 0 True serviceWithoutCache, test_sys)"
proof -
  have a: "cacheService serviceWithoutCache = None"
    by (simp add: serviceWithoutCache_def)
  show ?thesis
    using a invalidate_without_store_returns_failure [OF a, of "Many [''key1'']" EXACT test_sys]
    by simp
qed

text \<open>
  The claim C6 as written fails: on the service of the spec file's test, which has no
  store bound, the call returns a result object instead of throwing.
\<close>

theorem invalidate_without_store_counterexample:
  "cacheService serviceWithoutCache = None
   \<and> fst (invalidate (Many [''key1'']) EXACT serviceWithoutCache test_sys) =
        Returns \<lparr> invalidatedKeys = 0, invalidatedNamespaces = 0, invalidatedTags = 0,
                  keys = [], namespaces = [], result_tags = [], success = False,
                  error = Some ''Cache service not set'' \<rparr>"
  by (simp add: serviceWithoutCache_def invalidate_def invalidate_try_def empty_result_def)

text \<open>
  Claim C7. With a store bound, \<open>invalidate\<close> with the strategy \<open>wildcard\<close> or \<open>regex\<close>
  issues no call to the store (world and call log are unchanged) and returns a result
  with \<open>success = true\<close> and \<open>invalidatedKeys = 0\<close>. The store interface has no operation
  that enumerates keys, so this is every bound store.
\<close>

theorem invalidate_wildcard_regex_noop:
  assumes "cacheService e = Some svc" and "strat = WILDCARD \<or> strat = REGEX"
  shows "\<exists>r e'. invalidate t strat e s = (Returns r, e', s)
                  \<and> success r \<and> invalidatedKeys r = 0 \<and> keys r = [] \<and> error r = None"
  using assms
  by (auto simp add: invalidate_def invalidate_try_def invalidateWildcard_def invalidateRegex_def
      empty_result_def strategy_defs)

theorem invalidate_wildcard_regex_noop_witness:
  "cacheService test_service = Some (MockCacheService ''store'')
   \<and> (WILDCARD = WILDCARD \<or> WILDCARD = REGEX)
   \<and> (\<exists>r e'. invalidate (Many [''user:*'']) WILDCARD test_service test_sys = (Returns r, e', test_sys)
                  \<and> success r \<and> invalidatedKeys r = 0 \<and> keys r = [] \<and> error r = None)"
proof -
  have a: "cacheService test_service = Some (MockCacheService ''store'')"
    by (simp add: test_service_def)
  have b: "WILDCARD = WILDCARD \<or> WILDCARD = REGEX" by simp
  show ?thesis
    using a invalidate_wildcard_regex_noop [OF a b, of "Many [''user:*'']" test_sys]
    by simp
qed

text \<open>
  Claim C8. For a rule stored in the rule map with \<open>enabled = false\<close>, \<open>invalidateByRule\<close>
  on its id returns (does not throw) a result with \<open>success = false\<close> and
  \<open>error = 'Rule is disabled'\<close>, and performs no operation on the bound store: the world,
  the call log and the service itself are unchanged.
\<close>

theorem invalidateByRule_disabled_rule:
  assumes "map_of (rules e) (rule_id r) = Some r" and "\<not> rule_enabled r"
  shows "\<exists>res. invalidateByRule (rule_id r) e s = (Returns res, e, s)
               \<and> \<not> success res \<and> error res = Some ''Rule is disabled''"
  using assms by (simp add: invalidateByRule_def getRule_def empty_result_def)

theorem invalidateByRule_disabled_rule_witness:
  "map_of (rules test_service) (rule_id disabled_rule) = Some disabled_rule
   \<and> \<not> rule_enabled disabled_rule
   \<and> (\<exists>res. invalidateByRule (rule_id disabled_rule) test_service test_sys = (Returns res, test_service, test_sys)
               \<and> \<not> success res \<and> error res = Some ''Rule is disabled'')"
proof -
  have a: "map_of (rules test_service) (rule_id disabled_rule) = Some disabled_rule"
    by (simp add: test_service_def disabled_rule_def)
  have b: "\<not> rule_enabled disabled_rule"
    by (simp add: disabled_rule_def)
  show ?thesis
    using a b invalidateByRule_disabled_rule [OF a b, of test_sys] by simp
qed

text \<open>
  Claim C10. For a rule id that is not in the rule map, \<open>removeRule\<close> returns \<open>false\<close> and
  \<open>updateRule\<close> returns \<open>false\<close>; neither throws (both are total here and their \<open>catch\<close>
  clauses are never entered) and each leaves the service, hence the rule map, unchanged.
\<close>

theorem removeRule_updateRule_absent_id:
  assumes "map_of (rules e) ruleId = None"
  shows "removeRule ruleId e = (False, e) \<and> updateRule ruleId u now e = (False, e)"
  using assms by (simp add: removeRule_def updateRule_def)

theorem removeRule_updateRule_absent_id_witness:
  "map_of (rules test_service) ''non-existent-rule'' = None
   \<and> removeRule ''non-existent-rule'' test_service = (False, test_service)
   \<and> updateRule ''non-existent-rule'' \<lparr> upd_name = Some ''renamed'', upd_strategy = None,
        upd_pattern = None, upd_trigger = None, upd_enabled = Some True, upd_priority = None,
        upd_condition = None, upd_dependencies = None \<rparr> 5 test_service = (False, test_service)"
proof -
  have a: "map_of (rules test_service) ''non-existent-rule'' = None"
    by (simp add: test_service_def)
  show ?thesis
    using a removeRule_updateRule_absent_id [OF a] by simp
qed

lemma invalidate_counts:
  assumes "invalidate t strat e s = (r, e', s')"
  shows "totalInvalidations (stats e') = totalInvalidations (stats e) + 1
         \<and> ((successfulInvalidations (stats e') = successfulInvalidations (stats e) + 1
               \<and> failedInvalidations (stats e') = failedInvalidations (stats e))
            \<or> (successfulInvalidations (stats e') = successfulInvalidations (stats e)
               \<and> failedInvalidations (stats e') = failedInvalidations (stats e) + 1))"
proof (cases "invalidate_try (targets_of t) strat e s")
  case (fields r0 e0 s0)
  show ?thesis
  proof (cases r0)
    case (Returns res)
    with fields have "e0 = updateStats strat (invalidatedKeys res) False e"
      by (auto simp: invalidate_try_def Let_def split: option.splits if_splits prod.splits outcome.splits)
    moreover from fields Returns assms have "e' = e0"
      by (simp add: invalidate_def)
    ultimately show ?thesis
      by (simp add: updateStats_total updateStats_successful updateStats_failed)
  next
    case (Throws msg)
    with fields have "e0 = e"
      by (auto simp: invalidate_try_def Let_def split: option.splits if_splits prod.splits outcome.splits)
    moreover from fields Throws assms have "e' = updateStats strat 0 True e0"
      by (auto simp add: invalidate_def)
    ultimately show ?thesis
      by (simp add: updateStats_total updateStats_successful updateStats_failed)
  qed
qed

lemma rule_fires_delegates:
  assumes "rule_fires e ruleId"
  shows "\<exists>rule :: InvalidationRule. invalidateByRule ruleId e s = invalidate (One (pattern rule)) (strategy rule) e s"
proof -
  from assms obtain rule where r: "getRule e ruleId = Some rule"
    by (auto simp: rule_fires_def split: option.splits)
  with assms have "invalidateByRule ruleId e s = invalidate (One (pattern rule)) (strategy rule) e s"
    by (auto simp: rule_fires_def invalidateByRule_def split: option.splits)
  then show ?thesis ..
qed

lemma rule_blocked_unchanged:
  "\<not> rule_fires e ruleId \<Longrightarrow> snd (invalidateByRule ruleId e s) = (e, s)"
  by (auto simp: rule_fires_def invalidateByRule_def split: option.splits)

lemma invalidate_consistent:
  assumes "stats_consistent (stats e)"
  shows "stats_consistent (stats (fst (snd (invalidate t strat e s))))"
proof -
  obtain r e' s' where eq: "invalidate t strat e s = (r, e', s')"
    by (cases "invalidate t strat e s") auto
  from invalidate_counts [OF eq] assms show ?thesis
    by (auto simp: eq stats_consistent_def)
qed

lemma run_call_consistent:
  assumes "stats_consistent (stats (fst es))"
  shows "stats_consistent (stats (fst (run_call c es)))"
proof -
  obtain e s where Pair: "es = (e, s)" by (cases es) auto
  show ?thesis
  proof (cases c)
    case (InvalidateCall t strat)
    with Pair assms invalidate_consistent [of e t strat s] show ?thesis by simp
  next
    case (InvalidateByRuleCall ruleId)
    show ?thesis
    proof (cases "rule_fires e ruleId")
      case True
      from rule_fires_delegates [OF True, of s] obtain rule :: InvalidationRule where
        "invalidateByRule ruleId e s = invalidate (One (pattern rule)) (strategy rule) e s" ..
      with Pair assms InvalidateByRuleCall invalidate_consistent [of e "One (pattern rule)" "strategy rule" s]
      show ?thesis by simp
    next
      case False
      from rule_blocked_unchanged [OF False, of s]
      have "snd (invalidateByRule ruleId e s) = (e, s)" .
      with Pair assms InvalidateByRuleCall show ?thesis by simp
    qed
  qed
qed

lemma run_calls_consistent:
  "stats_consistent (stats (fst es)) \<Longrightarrow> stats_consistent (stats (fst (run_calls cs es)))"
  by (induction cs arbitrary: es) (simp_all add: run_call_consistent)

text \<open>
  Claim C9, as amended. The statistics start consistent
  (\<open>totalInvalidations = successfulInvalidations + failedInvalidations\<close>) and stay so after
  every sequence of \<open>invalidate\<close> and \<open>invalidateByRule\<close> calls. Every \<open>invalidate\<close> call adds
  exactly one to \<open>totalInvalidations\<close> and to exactly one of the two other counters. An
  \<open>invalidateByRule\<close> call does the same when it gets past its gates and hands over to
  \<open>invalidate\<close>; when the rule is unknown, disabled, or a dependency is missing or
  disabled, it leaves the statistics as they were.
\<close>

theorem invalidation_stats_consistent:
  "stats_consistent initializeStats
   \<and> (stats_consistent (stats e) \<longrightarrow> stats_consistent (stats (fst (run_calls cs (e, s)))))
   \<and> (\<forall>r e' s'. invalidate t strat e s = (r, e', s') \<longrightarrow>
          totalInvalidations (stats e') = totalInvalidations (stats e) + 1
          \<and> ((successfulInvalidations (stats e') = successfulInvalidations (stats e) + 1
                \<and> failedInvalidations (stats e') = failedInvalidations (stats e))
             \<or> (successfulInvalidations (stats e') = successfulInvalidations (stats e)
                \<and> failedInvalidations (stats e') = failedInvalidations (stats e) + 1)))
   \<and> (\<forall>r e' s'. invalidateByRule ruleId e s = (r, e', s') \<longrightarrow>
          (if rule_fires e ruleId then
             totalInvalidations (stats e') = totalInvalidations (stats e) + 1
             \<and> ((successfulInvalidations (stats e') = successfulInvalidations (stats e) + 1
                   \<and> failedInvalidations (stats e') = failedInvalidations (stats e))
                \<or> (successfulInvalidations (stats e') = successfulInvalidations (stats e)
                   \<and> failedInvalidations (stats e') = failedInvalidations (stats e) + 1))
           else stats e' = stats e))"
proof (intro conjI allI impI)
  show "stats_consistent initializeStats"
    by (simp add: stats_consistent_def initializeStats_def)
next
  assume "stats_consistent (stats e)"
  then show "stats_consistent (stats (fst (run_calls cs (e, s))))"
    using run_calls_consistent [of "(e, s)" cs] by simp
next
  fix r e' s'
  assume "invalidate t strat e s = (r, e', s')"
  then show "totalInvalidations (stats e') = totalInvalidations (stats e) + 1"
    using invalidate_counts by blast
next
  fix r e' s'
  assume "invalidate t strat e s = (r, e', s')"
  then show "(successfulInvalidations (stats e') = successfulInvalidations (stats e) + 1
                \<and> failedInvalidations (stats e') = failedInvalidations (stats e))
             \<or> (successfulInvalidations (stats e') = successfulInvalidations (stats e)
                \<and> failedInvalidations (stats e') = failedInvalidations (stats e) + 1)"
    using invalidate_counts by blast
next
  fix r e' s'
  assume eq: "invalidateByRule ruleId e s = (r, e', s')"
  show "if rule_fires e ruleId then
             totalInvalidations (stats e') = totalInvalidations (stats e) + 1
             \<and> ((successfulInvalidations (stats e') = successfulInvalidations (stats e) + 1
                   \<and> failedInvalidations (stats e') = failedInvalidations (stats e))
                \<or> (successfulInvalidations (stats e') = successfulInvalidations (stats e)
                   \<and> failedInvalidations (stats e') = failedInvalidations (stats e) + 1))
           else stats e' = stats e"
  proof (cases "rule_fires e ruleId")
    case True
    from rule_fires_delegates [OF True, of s] obtain rule :: InvalidationRule where
      "invalidateByRule ruleId e s = invalidate (One (pattern rule)) (strategy rule) e s" ..
    with eq have "invalidate (One (pattern rule)) (strategy rule) e s = (r, e', s')" by simp
    from invalidate_counts [OF this] True show ?thesis by simp
  next
    case False
    from rule_blocked_unchanged [OF False, of s]
    have "snd (invalidateByRule ruleId e s) = (e, s)" .
    with eq False show ?thesis by simp
  qed
qed

theorem invalidation_stats_consistent_witness:
  "stats_consistent (stats test_service)
   \<and> stats_consistent (stats (fst (run_calls
        [InvalidateCall (Many [''key1'']) EXACT, InvalidateByRuleCall ''r1'',
         InvalidateCall (One ''x'') ''unsupported''] (test_service, test_sys))))
   \<and> totalInvalidations (stats (fst (snd (invalidate (Many [''key1'']) EXACT test_service test_sys)))) = 1
   \<and> \<not> rule_fires test_service ''r1''
   \<and> stats (fst (snd (invalidateByRule ''r1'' test_service test_sys))) = stats test_service"
proof -
  have a: "stats_consistent (stats test_service)"
    by (simp add: test_service_def stats_consistent_def initializeStats_def)
  have b: "\<not> rule_fires test_service ''r1''"
    by (simp add: rule_fires_def getRule_def test_service_def disabled_rule_def)
  obtain r e' s' where eq: "invalidate (Many [''key1'']) EXACT test_service test_sys = (r, e', s')"
    by (cases "invalidate (Many [''key1'']) EXACT test_service test_sys") auto
  obtain r2 e2 s2 where eq2: "invalidateByRule ''r1'' test_service test_sys = (r2, e2, s2)"
    by (cases "invalidateByRule ''r1'' test_service test_sys") auto
  have t0: "totalInvalidations (stats test_service) = 0"
    by (simp add: test_service_def initializeStats_def)
  note inst = invalidation_stats_consistent [of test_service
      "[InvalidateCall (Many [''key1'']) EXACT, InvalidateByRuleCall ''r1'',
         InvalidateCall (One ''x'') ''unsupported'']" test_sys "Many [''key1'']" EXACT "''r1''"]
  from inst a have c: "stats_consistent (stats (fst (run_calls
        [InvalidateCall (Many [''key1'']) EXACT, InvalidateByRuleCall ''r1'',
         InvalidateCall (One ''x'') ''unsupported''] (test_service, test_sys))))"
    by blast
  from inst eq have "totalInvalidations (stats e') = totalInvalidations (stats test_service) + 1"
    by blast
  with t0 eq have d: "totalInvalidations (stats (fst (snd (invalidate (Many [''key1'']) EXACT test_service test_sys)))) = 1"
    by simp
  from inst eq2 b have "stats e2 = stats test_service"
    by (metis (full_types))
  with eq2 have f: "stats (fst (snd (invalidateByRule ''r1'' test_service test_sys))) = stats test_service"
    by simp
  from a b c d f show ?thesis by blast
qed

text \<open>
  The claim C9 as written fails in its second half: \<open>invalidateByRule\<close> on the disabled rule
  of the spec file's test completes, returning a result, and no counter moves.
\<close>

theorem invalidateByRule_counts_nothing_counterexample:
  "fst (invalidateByRule ''r1'' test_service test_sys) =
       Returns \<lparr> invalidatedKeys = 0, invalidatedNamespaces = 0, invalidatedTags = 0,
                 keys = [], namespaces = [], result_tags = [], success = False,
                 error = Some ''Rule is disabled'' \<rparr>
   \<and> totalInvalidations (stats test_service) = 0
   \<and> totalInvalidations (stats (fst (snd (invalidateByRule ''r1'' test_service test_sys)))) = 0"
  by (simp add: invalidateByRule_def getRule_def test_service_def disabled_rule_def
      empty_result_def initializeStats_def)


section \<open>Properties of the cache manager\<close>

lemma promote_layers_log:
  "\<exists>new. snd (promote_layers ls k v s) = snd s @ new
         \<and> map call_layer new = map name ls \<and> list_all (is_set_of k v) new"
proof (induction ls arbitrary: s)
  case Nil
  then show ?case by simp
next
  case (Cons l ls)
  obtain r w' where c: "svc_set (service l) k v (fst s) = (r, w')"
    by (cases "svc_set (service l) k v (fst s)") auto
  let ?s1 = "(w', snd s @ [SetCall (name l) k v r])"
  from Cons.IH [of ?s1] obtain new where
    n: "snd (promote_layers ls k v ?s1) = snd ?s1 @ new"
       "map call_layer new = map name ls" "list_all (is_set_of k v) new"
    by blast
  have "promote_layers (l # ls) k v s = promote_layers ls k v ?s1"
    using c by (cases r) (simp_all add: call_set_def)
  with n have "snd (promote_layers (l # ls) k v s) = snd s @ (SetCall (name l) k v r # new)
      \<and> map call_layer (SetCall (name l) k v r # new) = map name (l # ls)
      \<and> list_all (is_set_of k v) (SetCall (name l) k v r # new)"
    by simp
  then show ?case by blast
qed

lemma set_layers_log:
  "\<exists>new. snd (snd (set_layers ls k v b s)) = snd s @ new
         \<and> map call_layer new = map name (filter (\<lambda>l. enabled l \<and> \<not> readOnly l) ls)
         \<and> list_all (is_set_of k v) new
         \<and> (fst (set_layers ls k v b s) \<longleftrightarrow> b \<or> list_ex set_accepted new)"
proof (induction ls arbitrary: s b)
  case Nil
  then show ?case by simp
next
  case (Cons l ls)
  show ?case
  proof (cases "enabled l \<and> \<not> readOnly l")
    case False
    with Cons.IH [of b s] show ?thesis by auto
  next
    case True
    obtain r w' where c: "svc_set (service l) k v (fst s) = (r, w')"
      by (cases "svc_set (service l) k v (fst s)") auto
    let ?s1 = "(w', snd s @ [SetCall (name l) k v r])"
    let ?b1 = "(if r = Returns True then True else b)"
    from Cons.IH [of ?b1 ?s1] obtain new where
      n: "snd (snd (set_layers ls k v ?b1 ?s1)) = snd ?s1 @ new"
         "map call_layer new = map name (filter (\<lambda>l. enabled l \<and> \<not> readOnly l) ls)"
         "list_all (is_set_of k v) new"
         "fst (set_layers ls k v ?b1 ?s1) \<longleftrightarrow> ?b1 \<or> list_ex set_accepted new"
      by blast
    have step: "set_layers (l # ls) k v b s = set_layers ls k v ?b1 ?s1"
      using c True by (cases r) (auto simp add: call_set_def)
    let ?new = "SetCall (name l) k v r # new"
    from n step True have "snd (snd (set_layers (l # ls) k v b s)) = snd s @ ?new
         \<and> map call_layer ?new = map name (filter (\<lambda>l. enabled l \<and> \<not> readOnly l) (l # ls))
         \<and> list_all (is_set_of k v) ?new
         \<and> (fst (set_layers (l # ls) k v b s) \<longleftrightarrow> b \<or> list_ex set_accepted ?new)"
      by auto
    then show ?thesis by blast
  qed
qed

lemma higherLayers_cong: "layers m1 = layers m \<Longrightarrow> higherLayers m1 p = higherLayers m p"
  by (simp add: higherLayers_def)

lemma promoteToHigherLayer_runs_all:
  "promoteToHigherLayer m k v p s = promote_layers (higherLayers m p) k v s"
proof (cases "higherLayers m p")
  case Nil
  then show ?thesis
    by (simp add: promoteToHigherLayer_def promoteToHigherLayer_start_def settle_promotion_def)
next
  case (Cons l rest)
  obtain r s1 where c: "call_set (name l) (service l) k v s = (r, s1)"
    by (cases "call_set (name l) (service l) k v s") auto
  with Cons show ?thesis
    by (cases r)
       (simp_all add: promoteToHigherLayer_def promoteToHigherLayer_start_def settle_promotion_def)
qed

lemma promotion_started_cong:
  "layers m1 = layers m \<Longrightarrow> promotion_started m1 k v L first pending = promotion_started m k v L first pending"
  by (simp add: promotion_started_def higherLayers_def)

lemma get_shape_skip:
  assumes "get_shape m k ls r new pending"
  shows "get_shape m k (l # ls) r new pending"
  using assms
proof cases
  case all_miss
  then show ?thesis by (simp add: get_shape.all_miss)
next
  case (hit L gets v first)
  from get_shape.hit [of L "l # ls" k gets m v first pending] hit show ?thesis by simp
next
  case (thrown gets msg n)
  then show ?thesis by (simp add: get_shape.thrown)
qed

lemma get_shape_after_miss:
  assumes "get_shape m k ls r new pending"
  shows "get_shape m k (l # ls) r (GetCall n0 k (Returns None) # new) pending"
  using assms
proof cases
  case all_miss
  then show ?thesis by (simp add: get_shape.all_miss)
next
  case (hit L gets v first)
  from get_shape.hit [of L "l # ls" k "GetCall n0 k (Returns None) # gets" m v first pending] hit
  show ?thesis by simp
next
  case (thrown gets msg n)
  from get_shape.thrown [of k "GetCall n0 k (Returns None) # gets" m "l # ls" msg n] thrown
  show ?thesis by simp
qed

lemma promoteToHigherLayer_start_log:
  assumes "promoteToHigherLayer_start m k v (priority L) s = (s', pending)" and "1 < priority L"
  shows "\<exists>first. snd s' = snd s @ first \<and> promotion_started m k v L first pending"
proof (cases "higherLayers m (priority L)")
  case Nil
  with assms have "s' = s" "pending = None"
    by (simp_all add: promoteToHigherLayer_start_def)
  with Nil assms(2) have "snd s' = snd s @ [] \<and> promotion_started m k v L [] pending"
    by (simp add: promotion_started_def)
  then show ?thesis by blast
next
  case (Cons t rest)
  obtain r w' where c: "svc_set (service t) k v (fst s) = (r, w')"
    by (cases "svc_set (service t) k v (fst s)") auto
  with Cons assms(1) have "s' = (w', snd s @ [SetCall (name t) k v r])" "pending = Some (rest, k, v)"
    by (simp_all add: promoteToHigherLayer_start_def call_set_def)
  with Cons assms(2) have "snd s' = snd s @ [SetCall (name t) k v r]
      \<and> promotion_started m k v L [SetCall (name t) k v r] pending"
    by (simp add: promotion_started_def)
  then show ?thesis by blast
qed

lemma get_layers_log:
  assumes "get_layers m ls k s = (r, m', s', pending)"
  shows "\<exists>new. snd s' = snd s @ new \<and> get_shape m k ls r new pending"
  using assms
proof (induction ls arbitrary: s)
  case Nil
  have "get_shape m k [] (Returns None) [] None"
    by (rule get_shape.all_miss) simp
  with Nil show ?case by simp
next
  case (Cons l ls)
  show ?case
  proof (cases "enabled l")
    case False
    with Cons.prems have "get_layers m ls k s = (r, m', s', pending)" by simp
    from Cons.IH [OF this] obtain new where
      n: "snd s' = snd s @ new" "get_shape m k ls r new pending"
      by blast
    from n(1) get_shape_skip [OF n(2), of l] show ?thesis by blast
  next
    case True
    obtain r1 w' where c: "svc_get (service l) k (fst s) = (r1, w')"
      by (cases "svc_get (service l) k (fst s)") auto
    let ?s1 = "(w', snd s @ [GetCall (name l) k r1])"
    have cg: "call_get (name l) (service l) k s = (r1, ?s1)"
      using c by (simp add: call_get_def)
    show ?thesis
    proof (cases r1)
      case (Throws msg)
      with cg True Cons.prems have res: "r = Throws msg" "s' = ?s1" "pending = None" by auto
      have "get_shape m k (l # ls) (Throws msg) ([] @ [GetCall (name l) k (Throws msg)]) None"
        by (rule get_shape.thrown) simp
      with res Throws show ?thesis
        by (intro exI [of _ "[GetCall (name l) k r1]"]) simp
    next
      case (Returns x)
      show ?thesis
      proof (cases x)
        case None
        with Returns cg True Cons.prems have "get_layers m ls k ?s1 = (r, m', s', pending)" by simp
        from Cons.IH [OF this] obtain new where
          n: "snd s' = snd ?s1 @ new" "get_shape m k ls r new pending"
          by blast
        from get_shape_after_miss [OF n(2), of l "name l"] n(1) Returns None show ?thesis
          by (intro exI [of _ "GetCall (name l) k (Returns None) # new"]) simp
      next
        case (Some v)
        let ?m1 = "manager_updateStats (m\<lparr>hitCount := hitCount m + 1\<rparr>)"
        have lm: "layers ?m1 = layers m" by (simp add: manager_updateStats_def)
        obtain first where
          f: "snd s' = snd ?s1 @ first" "promotion_started m k v l first pending" "r = Returns (Some v)"
        proof (cases "1 < priority l")
          case False
          with Some Returns cg True Cons.prems
          have "r = Returns (Some v)" "s' = ?s1" "pending = None" by (auto simp: Let_def)
          with False that [of "[]"] show ?thesis by (simp add: promotion_started_def)
        next
          case T: True
          obtain s2 p2 where st: "promoteToHigherLayer_start ?m1 k v (priority l) ?s1 = (s2, p2)"
            by (cases "promoteToHigherLayer_start ?m1 k v (priority l) ?s1") auto
          with T Some Returns cg True Cons.prems
          have res: "r = Returns (Some v)" "s' = s2" "pending = p2" by (auto simp: Let_def)
          from promoteToHigherLayer_start_log [OF st T] obtain first where
            "snd s2 = snd ?s1 @ first" "promotion_started ?m1 k v l first p2"
            by blast
          with res promotion_started_cong [OF lm] that [of first] show ?thesis by simp
        qed
        let ?new = "[] @ GetCall (name l) k (Returns (Some v)) # first"
        have "get_shape m k (l # ls) (Returns (Some v)) ?new pending"
          by (rule get_shape.hit) (use True f(2) in simp_all)
        moreover have "snd s' = snd s @ ?new"
          using f(1) Returns Some by simp
        ultimately show ?thesis
          using f(3) by (intro exI [of _ ?new]) simp
      qed
    qed
  qed
qed

lemma getSortedLayers_requestCount:
  "getSortedLayers (m\<lparr>requestCount := c\<rparr>) = getSortedLayers m"
  by (simp add: getSortedLayers_def)

lemma manager_get_log:
  assumes "manager_get k m s = (r, m', s', pending)"
  shows "\<exists>new r0. snd s' = snd s @ new
         \<and> get_shape m k (getSortedLayers m) r0 new pending
         \<and> r = (case r0 of Returns x \<Rightarrow> Returns x | Throws msg \<Rightarrow> Returns None)"
proof -
  let ?m0 = "m\<lparr>requestCount := requestCount m + 1\<rparr>"
  obtain r0 m1 s1 p1 where g: "get_layers ?m0 (getSortedLayers m) k s = (r0, m1, s1, p1)"
    by (cases "get_layers ?m0 (getSortedLayers m) k s") auto
  from get_layers_log [OF g] obtain new where
    n: "snd s1 = snd s @ new" "get_shape ?m0 k (getSortedLayers m) r0 new p1"
    by blast
  have "\<And>v L first p. promotion_started ?m0 k v L first p = promotion_started m k v L first p"
    by (rule promotion_started_cong) simp
  then have eq: "get_shape ?m0 k = get_shape m k"
    by (intro ext) (simp add: get_shape.simps)
  have "manager_get k m s = (case r0 of Returns x \<Rightarrow> Returns x | Throws msg \<Rightarrow> Returns None, m1, s1, p1)"
    using g by (cases r0) (simp_all add: manager_get_def Let_def getSortedLayers_requestCount)
  with assms n eq show ?thesis by auto
qed

lemma misses_no_set_calls: "list_all (is_miss k) xs \<Longrightarrow> filter is_set_call xs = []"
proof (induction xs)
  case Nil
  then show ?case by simp
next
  case (Cons c xs)
  then show ?case by (cases c) simp_all
qed

lemma set_calls_all_kept: "list_all (is_set_of k v) xs \<Longrightarrow> filter is_set_call xs = xs"
proof (induction xs)
  case Nil
  then show ?case by simp
next
  case (Cons c xs)
  then show ?case by (cases c) simp_all
qed

lemma miss_not_value: "list_all (is_miss k) xs \<Longrightarrow> GetCall n k (Returns (Some v)) \<notin> set xs"
  by (auto simp: list_all_iff)

lemma issued_append: "snd s' = snd s @ new \<Longrightarrow> issued s s' = new"
  by (simp add: issued_def)

lemma settle_promotion_log:
  "\<exists>new. issued s (settle_promotion (Some (rest, k, v)) s) = new
         \<and> map call_layer new = map name rest \<and> list_all (is_set_of k v) new"
proof -
  from promote_layers_log [of rest k v s] obtain new where
    "snd (promote_layers rest k v s) = snd s @ new"
    "map call_layer new = map name rest" "list_all (is_set_of k v) new"
    by blast
  then show ?thesis
    by (simp add: settle_promotion_def issued_def)
qed

text \<open>
  What the writes of a promotion amount to, once their layers are known to be the
  selected ones: every selected layer is written, and, layer names being unique, no
  other layer is.
\<close>

lemma promotion_reach:
  assumes "map call_layer writes = map name (sort_key priority (filter P ls))"
  shows "(\<forall>l\<in>set ls. P l \<longrightarrow> name l \<in> set (map call_layer writes))
         \<and> (distinct (map name ls) \<longrightarrow>
              (\<forall>l\<in>set ls. \<not> P l \<longrightarrow> name l \<notin> set (map call_layer writes)))"
proof -
  have targets: "set (map call_layer writes) = name ` {l \<in> set ls. P l}"
    unfolding assms by auto
  have reach: "\<forall>l\<in>set ls. P l \<longrightarrow> name l \<in> set (map call_layer writes)"
    unfolding targets by blast
  have spare: "\<forall>l\<in>set ls. \<not> P l \<longrightarrow> name l \<notin> set (map call_layer writes)"
    if d: "distinct (map name ls)"
  proof (intro ballI impI notI)
    fix l
    assume l: "l \<in> set ls" "\<not> P l" and "name l \<in> set (map call_layer writes)"
    then obtain l' where l': "l' \<in> set ls" "P l'" "name l' = name l"
      unfolding targets by auto
    from d have "inj_on name (set ls)" by (simp add: distinct_map)
    with l(1) l'(1) l'(3) have "l' = l" by (auto dest: inj_onD)
    with l(2) l'(2) show False by simp
  qed
  from reach spare show ?thesis by blast
qed

text \<open>
  Claim C1, as amended. When a call of the manager's \<open>get\<close> hits in an enabled layer \<open>L\<close>
  (the layer's \<open>get\<close> answered with a value), the call returns that value whatever the
  promotion writes answer. When the priority of \<open>L\<close> is greater than 1, \<open>get\<close> starts a
  promotion that it does not await: the targets are the enabled, non-read-only layers
  of priority strictly lower than that of \<open>L\<close>, in priority order; by the time \<open>get\<close>
  returns, \<open>set\<close> has been invoked on the first target only, and the rest is pending;
  once the pending rest has run, from whatever state, the promotion has issued exactly
  one \<open>set\<close> of the key and the found value on every target, in that order, and, layer
  names being unique, on no other layer. When the priority of \<open>L\<close> is 1 or less, \<open>get\<close>
  issues no \<open>set\<close> and leaves nothing pending.
\<close>

theorem manager_get_hit_promotes:
  assumes "manager_get k m s = (r, m', s', pending)"
      and "GetCall n k (Returns (Some v)) \<in> set (issued s s')"
  shows "r = Returns (Some v)
         \<and> (\<exists>L\<in>set (getSortedLayers m). name L = n
               \<and> (let lower = (\<lambda>l. enabled l \<and> \<not> readOnly l \<and> priority l < priority L);
                       targets = sort_key priority (filter lower (layers m));
                       started = filter is_set_call (issued s s')
                   in if 1 < priority L then
                        map call_layer started = map name (take 1 targets)
                        \<and> pending = (if targets = [] then None else Some (drop 1 targets, k, v))
                        \<and> (\<forall>s''.
                              map call_layer (started @ issued s'' (settle_promotion pending s'')) =
                                map name targets
                              \<and> list_all (is_set_of k v)
                                  (started @ issued s'' (settle_promotion pending s''))
                              \<and> (\<forall>l\<in>set (layers m). lower l \<longrightarrow>
                                    name l \<in> set (map call_layer
                                      (started @ issued s'' (settle_promotion pending s''))))
                              \<and> (distinct (map name (layers m)) \<longrightarrow>
                                    (\<forall>l\<in>set (layers m). \<not> lower l \<longrightarrow>
                                       name l \<notin> set (map call_layer
                                         (started @ issued s'' (settle_promotion pending s''))))))
                      else started = [] \<and> pending = None))"
proof -
  from manager_get_log [OF assms(1)] obtain new r0 where
    n: "snd s' = snd s @ new" "get_shape m k (getSortedLayers m) r0 new pending"
       "r = (case r0 of Returns x \<Rightarrow> Returns x | Throws msg \<Rightarrow> Returns None)"
    by auto
  from n(1) have iss: "issued s s' = new" by (rule issued_append)
  from n(2) show ?thesis
  proof cases
    case all_miss
    with assms(2) iss miss_not_value [of k new n v] show ?thesis by simp
  next
    case (thrown gets msg n')
    with assms(2) iss miss_not_value [of k gets n v] show ?thesis by simp
  next
    case (hit L gets v' first)
    have first_sets: "first = [] \<or> (\<exists>t r1. first = [SetCall t k v' r1])"
      using hit(6) by (auto simp: promotion_started_def split: if_splits list.splits)
    then have no_get: "GetCall n k (Returns (Some v)) \<notin> set first" by auto
    from hit(2) assms(2) iss miss_not_value [OF hit(5), of n v] no_get
    have same: "n = name L" "v = v'" by auto
    have started: "filter is_set_call new = first"
      using hit(2) misses_no_set_calls [OF hit(5)] first_sets by auto
    from hit(1) n(3) same have res: "r = Returns (Some v)" by simp
    let ?lower = "\<lambda>l. enabled l \<and> \<not> readOnly l \<and> priority l < priority L"
    let ?targets = "sort_key priority (filter ?lower (layers m))"
    have hl: "higherLayers m (priority L) = ?targets"
      by (simp add: higherLayers_def)
    have body: "if 1 < priority L then
                  map call_layer first = map name (take 1 ?targets)
                  \<and> pending = (if ?targets = [] then None else Some (drop 1 ?targets, k, v))
                  \<and> (\<forall>s''.
                        map call_layer (first @ issued s'' (settle_promotion pending s'')) =
                          map name ?targets
                        \<and> list_all (is_set_of k v)
                            (first @ issued s'' (settle_promotion pending s''))
                        \<and> (\<forall>l\<in>set (layers m). ?lower l \<longrightarrow>
                              name l \<in> set (map call_layer
                                (first @ issued s'' (settle_promotion pending s''))))
                        \<and> (distinct (map name (layers m)) \<longrightarrow>
                              (\<forall>l\<in>set (layers m). \<not> ?lower l \<longrightarrow>
                                 name l \<notin> set (map call_layer
                                   (first @ issued s'' (settle_promotion pending s''))))))
                else first = [] \<and> pending = None"
    proof (cases "1 < priority L")
      case False
      with hit(6) show ?thesis by (simp add: promotion_started_def)
    next
      case T: True
      show ?thesis
      proof (cases ?targets)
        case Nil
        with T hit(6) hl have e: "first = []" "pending = None"
          by (simp_all add: promotion_started_def)
        have names: "map call_layer ([] :: ('a, 'b) store_call list) = map name ?targets"
          using Nil by simp
        from promotion_reach [OF names] e T Nil show ?thesis
          by (simp add: settle_promotion_def issued_def)
      next
        case (Cons t rest)
        with T hit(6) hl same obtain r1 where
          e: "first = [SetCall (name t) k v r1]" "pending = Some (rest, k, v)"
          by (auto simp: promotion_started_def)
        have all: "map call_layer (first @ issued s'' (settle_promotion pending s'')) = map name ?targets
                   \<and> list_all (is_set_of k v) (first @ issued s'' (settle_promotion pending s''))"
          for s''
          using settle_promotion_log [of s'' rest k v] e Cons by auto
        have reach: "(\<forall>l\<in>set (layers m). ?lower l \<longrightarrow>
                        name l \<in> set (map call_layer (first @ issued s'' (settle_promotion pending s''))))
                     \<and> (distinct (map name (layers m)) \<longrightarrow>
                          (\<forall>l\<in>set (layers m). \<not> ?lower l \<longrightarrow>
                             name l \<notin> set (map call_layer (first @ issued s'' (settle_promotion pending s'')))))"
          for s''
          using all [of s''] by (intro promotion_reach) simp
        from T e Cons all reach show ?thesis by simp
      qed
    qed
    from hit(3) same body started iss
    have "\<exists>L\<in>set (getSortedLayers m). name L = n
               \<and> (let lower = (\<lambda>l. enabled l \<and> \<not> readOnly l \<and> priority l < priority L);
                       targets = sort_key priority (filter lower (layers m));
                       started = filter is_set_call (issued s s')
                   in if 1 < priority L then
                        map call_layer started = map name (take 1 targets)
                        \<and> pending = (if targets = [] then None else Some (drop 1 targets, k, v))
                        \<and> (\<forall>s''.
                              map call_layer (started @ issued s'' (settle_promotion pending s'')) =
                                map name targets
                              \<and> list_all (is_set_of k v)
                                  (started @ issued s'' (settle_promotion pending s''))
                              \<and> (\<forall>l\<in>set (layers m). lower l \<longrightarrow>
                                    name l \<in> set (map call_layer
                                      (started @ issued s'' (settle_promotion pending s''))))
                              \<and> (distinct (map name (layers m)) \<longrightarrow>
                                    (\<forall>l\<in>set (layers m). \<not> lower l \<longrightarrow>
                                       name l \<notin> set (map call_layer
                                         (started @ issued s'' (settle_promotion pending s''))))))
                      else started = [] \<and> pending = None)"
      by (intro bexI [of _ L]) (simp_all add: Let_def)
    with res show ?thesis by blast
  qed
qed

text \<open>
  Claim C4. A call of the manager's \<open>set\<close> issues exactly one \<open>set\<close> of the key and value
  on every enabled, non-read-only layer, in priority order, whatever the layers answer
  (a layer that throws does not stop the writes to the layers after it); it never
  throws and returns \<open>true\<close> exactly when at least one of those writes returned \<open>true\<close>.
  Layer names being unique (they are the keys of the layer map), a disabled or
  read-only layer receives no write.
\<close>

theorem manager_set_fans_out:
  assumes "manager_set k v m s = (r, m', s')"
  shows "snd s' = snd s @ issued s s'
         \<and> map call_layer (issued s s') =
             map name (filter (\<lambda>l. enabled l \<and> \<not> readOnly l) (getSortedLayers m))
         \<and> list_all (is_set_of k v) (issued s s')
         \<and> r = Returns (list_ex set_accepted (issued s s'))
         \<and> (\<forall>l\<in>set (layers m). enabled l \<and> \<not> readOnly l \<longrightarrow>
               name l \<in> set (map call_layer (issued s s')))
         \<and> (distinct (map name (layers m)) \<longrightarrow>
               (\<forall>l\<in>set (layers m). \<not> enabled l \<or> readOnly l \<longrightarrow>
                  name l \<notin> set (map call_layer (issued s s'))))"
proof -
  let ?ls = "getSortedLayers m"
  from set_layers_log [of ?ls k v False s] obtain new where
    n: "snd (snd (set_layers ?ls k v False s)) = snd s @ new"
       "map call_layer new = map name (filter (\<lambda>l. enabled l \<and> \<not> readOnly l) ?ls)"
       "list_all (is_set_of k v) new"
       "fst (set_layers ?ls k v False s) \<longleftrightarrow> False \<or> list_ex set_accepted new"
    by blast
  obtain b s1 where sl: "set_layers ?ls k v False s = (b, s1)"
    by (cases "set_layers ?ls k v False s") auto
  with assms have res: "r = Returns b" "s' = s1"
    by (simp_all add: manager_set_def)
  from n(1) sl res have log: "snd s' = snd s @ new" by simp
  then have iss: "issued s s' = new" by (rule issued_append)
  have targets: "set (map call_layer new) = name ` {l \<in> set (layers m). enabled l \<and> \<not> readOnly l}"
    unfolding n(2) by (auto simp: getSortedLayers_def)
  have reach: "\<forall>l\<in>set (layers m). enabled l \<and> \<not> readOnly l \<longrightarrow> name l \<in> set (map call_layer new)"
    unfolding targets by blast
  have spare: "\<forall>l\<in>set (layers m). \<not> enabled l \<or> readOnly l \<longrightarrow> name l \<notin> set (map call_layer new)"
    if d: "distinct (map name (layers m))"
  proof (intro ballI impI notI)
    fix l
    assume l: "l \<in> set (layers m)" "\<not> enabled l \<or> readOnly l"
       and "name l \<in> set (map call_layer new)"
    then obtain l' where l': "l' \<in> set (layers m)" "enabled l' \<and> \<not> readOnly l'" "name l' = name l"
      unfolding targets by auto
    from d have "inj_on name (set (layers m))" by (simp add: distinct_map)
    with l(1) l'(1) l'(3) have "l' = l" by (auto dest: inj_onD)
    with l(2) l'(2) show False by simp
  qed
  from log n(2) n(3) n(4) sl res reach spare show ?thesis
    unfolding iss by simp
qed

lemmas test_double_defs =
  manager_of_def mock_layer_def error_layer_def writeFailing_layer_def
  MockCacheService_def errorLayer_service_def world_layer1_def world_layer2_def

lemmas manager_defs =
  manager_get_def manager_set_def getSortedLayers_def higherLayers_def promoteToHigherLayer_def
  promoteToHigherLayer_start_def settle_promotion_def
  manager_updateStats_def call_get_def call_set_def issued_def Let_def

theorem manager_get_hit_promotes_witness:
  "manager_get ''K'' tiered_manager world_layer3 =
     (Returns (Some ''V''),
      tiered_manager\<lparr>requestCount := 1, hitCount := 1, hits := 1, misses := 0\<rparr>,
      after_get_layer3,
      Some ([mock_layer ''layer1'' 1, mock_layer ''layer2'' 2], ''K'', ''V''))
   \<and> GetCall ''layer3'' ''K'' (Returns (Some ''V'')) \<in> set (issued world_layer3 after_get_layer3)
   \<and> filter is_set_call (issued world_layer3 after_get_layer3) =
       [SetCall ''layer0'' ''K'' ''V'' (Throws ''Layer error'')]
   \<and> issued after_get_layer3
         (settle_promotion (Some ([mock_layer ''layer1'' 1, mock_layer ''layer2'' 2], ''K'', ''V''))
            after_get_layer3) =
       [SetCall ''layer1'' ''K'' ''V'' (Returns True), SetCall ''layer2'' ''K'' ''V'' (Returns True)]
   \<and> distinct (map name (layers tiered_manager))
   \<and> (\<exists>L\<in>set (getSortedLayers tiered_manager). name L = ''layer3''
         \<and> (let lower = (\<lambda>l. enabled l \<and> \<not> readOnly l \<and> priority l < priority L);
                 targets = sort_key priority (filter lower (layers tiered_manager));
                 started = filter is_set_call (issued world_layer3 after_get_layer3);
                 pending = Some ([mock_layer ''layer1'' 1, mock_layer ''layer2'' 2], ''K'', ''V'')
             in if 1 < priority L then
                  map call_layer started = map name (take 1 targets)
                  \<and> pending = (if targets = [] then None else Some (drop 1 targets, ''K'', ''V''))
                  \<and> (\<forall>s''.
                        map call_layer (started @ issued s'' (settle_promotion pending s'')) =
                          map name targets
                        \<and> list_all (is_set_of ''K'' ''V'')
                            (started @ issued s'' (settle_promotion pending s''))
                        \<and> (\<forall>l\<in>set (layers tiered_manager). lower l \<longrightarrow>
                              name l \<in> set (map call_layer
                                (started @ issued s'' (settle_promotion pending s''))))
                        \<and> (distinct (map name (layers tiered_manager)) \<longrightarrow>
                              (\<forall>l\<in>set (layers tiered_manager). \<not> lower l \<longrightarrow>
                                 name l \<notin> set (map call_layer
                                   (started @ issued s'' (settle_promotion pending s''))))))
                else started = [] \<and> pending = None))"
proof -
  have a: "manager_get ''K'' tiered_manager world_layer3 =
     (Returns (Some ''V''),
      tiered_manager\<lparr>requestCount := 1, hitCount := 1, hits := 1, misses := 0\<rparr>,
      after_get_layer3,
      Some ([mock_layer ''layer1'' 1, mock_layer ''layer2'' 2], ''K'', ''V''))"
    by (simp add: manager_defs test_double_defs tiered_manager_def world_layer3_def
        after_get_layer3_def)
  have b: "GetCall ''layer3'' ''K'' (Returns (Some ''V'')) \<in> set (issued world_layer3 after_get_layer3)"
    by (simp add: issued_def world_layer3_def after_get_layer3_def)
  have c: "filter is_set_call (issued world_layer3 after_get_layer3) =
       [SetCall ''layer0'' ''K'' ''V'' (Throws ''Layer error'')]"
    by (simp add: issued_def world_layer3_def after_get_layer3_def)
  have d: "issued after_get_layer3
         (settle_promotion (Some ([mock_layer ''layer1'' 1, mock_layer ''layer2'' 2], ''K'', ''V''))
            after_get_layer3) =
       [SetCall ''layer1'' ''K'' ''V'' (Returns True), SetCall ''layer2'' ''K'' ''V'' (Returns True)]"
    by (simp add: manager_defs test_double_defs after_get_layer3_def)
  have e: "distinct (map name (layers tiered_manager))"
    by (simp add: tiered_manager_def test_double_defs)
  from manager_get_hit_promotes [OF a b] a b c d e show ?thesis
    by (simp add: Let_def)
qed

text \<open>
  The tiered promotion scenario: two mock layers of priority 1 (empty) and 2 (holding
  \<open>K\<close>). The read returns the value; the one promotion write has been invoked when it
  returns, so the store of layer 1 holds \<open>K\<close> too, and the pending rest is empty.
\<close>

lemma tiered_promotion_scenario:
  "manager_get ''K'' (manager_of [mock_layer ''layer1'' 1, mock_layer ''layer2'' 2]) world_layer2 =
     (Returns (Some ''V''),
      (manager_of [mock_layer ''layer1'' 1, mock_layer ''layer2'' 2])
        \<lparr>requestCount := 1, hitCount := 1, hits := 1, misses := 0\<rparr>,
      ([((''layer2'', ''K''), ''V''), ((''layer1'', ''K''), ''V'')],
       [GetCall ''layer1'' ''K'' (Returns None), GetCall ''layer2'' ''K'' (Returns (Some ''V'')),
        SetCall ''layer1'' ''K'' ''V'' (Returns True)]),
      Some ([], ''K'', ''V''))"
  by (simp add: manager_defs test_double_defs)

text \<open>
  The claim C1 as written fails: a hit in the enabled layer of priority 1 is not promoted
  to the enabled, writable layer of priority 0. The read issues the two \<open>get\<close> calls and no
  \<open>set\<close>, and leaves no promotion pending, although \<open>layer0\<close> is enabled, writable and of
  lower priority number than the layer of the hit.
\<close>

theorem manager_get_priority_one_counterexample:
  "manager_get ''K'' (manager_of [mock_layer ''layer0'' 0, mock_layer ''layer1'' 1]) world_layer1 =
     (Returns (Some ''V''),
      (manager_of [mock_layer ''layer0'' 0, mock_layer ''layer1'' 1])
        \<lparr>requestCount := 1, hitCount := 1, hits := 1, misses := 0\<rparr>,
      ([((''layer1'', ''K''), ''V'')],
       [GetCall ''layer0'' ''K'' (Returns None), GetCall ''layer1'' ''K'' (Returns (Some ''V''))]),
      None)
   \<and> enabled (mock_layer ''layer0'' 0) \<and> \<not> readOnly (mock_layer ''layer0'' 0)
   \<and> priority (mock_layer ''layer0'' 0) < priority (mock_layer ''layer1'' 1)"
  by (simp add: manager_defs test_double_defs)

text \<open>
  Claim C2. When an enabled layer's \<open>get\<close> throws, the manager's \<open>get\<close> is to go on to the
  remaining layers and return the value a later layer holds. The code does not: with the
  error layer at priority 1 in front of a mock layer that holds \<open>K\<close>, the read consults the
  error layer only, the handler around the whole loop answers \<open>null\<close>, and the layer holding
  the key, which answers \<open>get\<close> with the value, is never asked. No exception reaches the
  caller.
\<close>

theorem manager_get_stops_at_throwing_layer:
  "manager_get ''K'' (manager_of [error_layer ''error-layer'' 1, mock_layer ''layer2'' 2]) world_layer2 =
     (Returns None,
      (manager_of [error_layer ''error-layer'' 1, mock_layer ''layer2'' 2])\<lparr>requestCount := 1\<rparr>,
      ([((''layer2'', ''K''), ''V'')], [GetCall ''error-layer'' ''K'' (Throws ''Layer error'')]),
      None)
   \<and> fst (svc_get (service (mock_layer ''layer2'' 2)) ''K'' (fst world_layer2)) = Returns (Some ''V'')"
  by (simp add: manager_defs test_double_defs)

theorem manager_set_fans_out_witness:
  "manager_set ''K'' ''V''
      (manager_of [mock_layer ''layer1'' 1, (mock_layer ''readonly-layer'' 2)\<lparr>readOnly := True\<rparr>,
                   error_layer ''error-layer'' 0, (mock_layer ''disabled-layer'' 3)\<lparr>enabled := False\<rparr>])
      ([], []) =
     (Returns True,
      manager_of [mock_layer ''layer1'' 1, (mock_layer ''readonly-layer'' 2)\<lparr>readOnly := True\<rparr>,
                  error_layer ''error-layer'' 0, (mock_layer ''disabled-layer'' 3)\<lparr>enabled := False\<rparr>],
      ([((''layer1'', ''K''), ''V'')],
       [SetCall ''error-layer'' ''K'' ''V'' (Throws ''Layer error''),
        SetCall ''layer1'' ''K'' ''V'' (Returns True)]))
   \<and> distinct (map name (layers
        (manager_of [mock_layer ''layer1'' 1, (mock_layer ''readonly-layer'' 2)\<lparr>readOnly := True\<rparr>,
                     error_layer ''error-layer'' 0, (mock_layer ''disabled-layer'' 3)\<lparr>enabled := False\<rparr>])))
   \<and> map call_layer (issued ([], [])
        ([((''layer1'', ''K''), ''V'')],
         [SetCall ''error-layer'' ''K'' ''V'' (Throws ''Layer error''),
          SetCall ''layer1'' ''K'' ''V'' (Returns True :: bool outcome)] :: (string, string) store_call list)) =
      map name (filter (\<lambda>l. enabled l \<and> \<not> readOnly l) (getSortedLayers
        (manager_of [mock_layer ''layer1'' 1, (mock_layer ''readonly-layer'' 2)\<lparr>readOnly := True\<rparr>,
                     error_layer ''error-layer'' 0, (mock_layer ''disabled-layer'' 3)\<lparr>enabled := False\<rparr>])))"
proof -
  let ?m = "manager_of [mock_layer ''layer1'' 1, (mock_layer ''readonly-layer'' 2)\<lparr>readOnly := True\<rparr>,
                   error_layer ''error-layer'' 0, (mock_layer ''disabled-layer'' 3)\<lparr>enabled := False\<rparr>]"
  let ?s = "([], []) :: (string, string, test_world) sys"
  let ?s' = "([((''layer1'', ''K''), ''V'')],
       [SetCall ''error-layer'' ''K'' ''V'' (Throws ''Layer error''),
        SetCall ''layer1'' ''K'' ''V'' (Returns True)]) :: (string, string, test_world) sys"
  have a: "manager_set ''K'' ''V'' ?m ?s = (Returns True, ?m, ?s')"
    by (simp add: manager_defs test_double_defs)
  have d: "distinct (map name (layers ?m))"
    by (simp add: test_double_defs)
  from manager_set_fans_out [OF a] a d show ?thesis by blast
qed


section \<open>Properties of the cache key factory\<close>

lemma split_on_nonempty: "split_on sep s \<noteq> []"
  by (induction s) (auto split: list.splits)

lemma split_on_no_sep: "sep \<notin> set p \<Longrightarrow> split_on sep p = [p]"
  by (induction p) auto

lemma split_on_append_sep:
  "split_on sep (p @ sep # rest) = split_on sep p @ split_on sep rest"
proof (induction p)
  case Nil
  then show ?case by simp
next
  case (Cons c cs)
  show ?case
  proof (cases "c = sep")
    case True
    with Cons show ?thesis by simp
  next
    case False
    obtain q qs where q: "split_on sep cs = q # qs"
      using split_on_nonempty [of sep cs] by (cases "split_on sep cs") auto
    with Cons False show ?thesis by simp
  qed
qed

lemma split_on_join_with:
  "ps \<noteq> [] \<Longrightarrow> split_on sep (join_with [sep] ps) = concat (map (split_on sep) ps)"
proof (induction "[sep]" ps rule: join_with.induct)
  case 1
  then show ?case by simp
next
  case (2 p)
  then show ?case by simp
next
  case (3 p q ps)
  then show ?case by (simp add: split_on_append_sep)
qed

lemma set_join_with: "set (join_with sep ps) \<subseteq> set sep \<union> \<Union> (set ` set ps)"
  by (induction sep ps rule: join_with.induct) auto

lemma split_join_parts:
  assumes "ps \<noteq> []" and "list_all (\<lambda>p. sep \<notin> set p) ps"
  shows "split_on sep (join_with [sep] ps) = ps"
proof -
  from assms(2) have "concat (map (split_on sep) ps) = ps"
    by (induction ps) (simp_all add: split_on_no_sep)
  with assms(1) show ?thesis by (simp add: split_on_join_with)
qed


lemma join_with_no_colon:
  assumes "list_all (\<lambda>t. t \<noteq> [] \<and> no_colon t \<and> CHR '','' \<notin> set t) ts"
  shows "CHR '':'' \<notin> set (join_with '','' ts)"
proof
  assume "CHR '':'' \<in> set (join_with '','' ts)"
  with set_join_with [of "'',''" ts] have "CHR '':'' \<in> set '','' \<union> \<Union> (set ` set ts)" by blast
  with assms show False by (auto simp: list_all_iff no_colon_def)
qed

lemma tags_round_trip:
  assumes "ts \<noteq> []" and "list_all (\<lambda>t. t \<noteq> [] \<and> no_colon t \<and> CHR '','' \<notin> set t) ts"
  shows "filter (\<lambda>tag. length tag > 0) (split_on CHR '','' (join_with '','' ts)) = ts"
proof -
  from assms(2) have "list_all (\<lambda>p. CHR '','' \<notin> set p) ts"
    by (simp add: list_all_iff)
  with assms(1) have "split_on CHR '','' (join_with '','' ts) = ts"
    by (rule split_join_parts)
  moreover from assms(2) have "filter (\<lambda>tag. length tag > 0) ts = ts"
    by (simp add: list_all_iff)
  ultimately show ?thesis by simp
qed

lemma sorted_tags_ok:
  assumes "list_all (\<lambda>t. t \<noteq> [] \<and> no_colon t \<and> CHR '','' \<notin> set t) ts"
  shows "list_all (\<lambda>t. t \<noteq> [] \<and> no_colon t \<and> CHR '','' \<notin> set t) (sort ts)"
  using assms by (simp add: list_all_iff)

lemma split_marker:
  "no_colon t \<Longrightarrow> split_on CHR '':'' (''tenant:'' @ t) = [''tenant'', t]"
  "no_colon t \<Longrightarrow> split_on CHR '':'' (''user:'' @ t) = [''user'', t]"
  "no_colon t \<Longrightarrow> split_on CHR '':'' (''tags:'' @ t) = [''tags'', t]"
  by (simp_all add: no_colon_def split_on_no_sep)

lemma split_plain: "no_colon t \<Longrightarrow> split_on CHR '':'' t = [t]"
  by (simp add: no_colon_def split_on_no_sep)

lemmas parse_steps =
  parse_def parse_version_def parse_namespace_def parse_tenant_def parse_user_def
  parse_tags_def parse_rest_def

lemma startsWith_nonempty: "startsWith s (p # ps) \<Longrightarrow> s \<noteq> []"
  by (cases s) simp_all

lemma parseable_plain: "parseable k \<Longrightarrow> plain_fields k"
  by (auto simp: parseable_def plain_fields_def split: option.splits dest: startsWith_nonempty)

lemma sorted_tags_joined:
  assumes "plain_fields k"
  shows "no_colon (join_with '','' (sort (tags k)))"
    and "tags k \<noteq> [] \<Longrightarrow>
           filter (\<lambda>tag. length tag > 0) (split_on CHR '','' (join_with '','' (sort (tags k)))) =
             sort (tags k)"
proof -
  have st: "list_all (\<lambda>t. t \<noteq> [] \<and> no_colon t \<and> CHR '','' \<notin> set t) (sort (tags k))"
    using assms by (intro sorted_tags_ok) (simp add: plain_fields_def)
  show "no_colon (join_with '','' (sort (tags k)))"
    using join_with_no_colon [OF st] by (simp add: no_colon_def)
  show "filter (\<lambda>tag. length tag > 0) (split_on CHR '','' (join_with '','' (sort (tags k)))) =
          sort (tags k)" if "tags k \<noteq> []"
  proof -
    from that have "sort (tags k) \<noteq> []" by (metis length_sort length_0_conv)
    from tags_round_trip [OF this st] show ?thesis .
  qed
qed

lemma split_toString:
  assumes "plain_fields k"
  shows "split_on CHR '':'' (fst (toString k)) = segments k"
  using assms sorted_tags_joined(1) [OF assms]
  by (auto simp add: plain_fields_def toString_def segments_def Let_def split_on_join_with
      split_marker split_plain split: option.splits)

lemma parse_segments:
  assumes "parseable k"
  shows "parse_rest (segments k)
           (parse_tags (segments k) (parse_user (segments k) (parse_tenant (segments k)
              (parse_namespace (segments k) (parse_version (segments k)
                 (\<lparr> key = [], namespace = None, version = None, tenantId = None,
                     userId = None, tags = [] \<rparr>, 0)))))) =
         k\<lparr>tags := sort (tags k)\<rparr>"
  using assms sorted_tags_joined(2) [OF parseable_plain [OF assms]]
  apply (cases "version k"; cases "namespace k"; cases "tenantId k"; cases "userId k";
         cases "tags k = []")
  apply (simp_all add: parseable_def segments_def parse_version_def parse_namespace_def
      parse_tenant_def parse_user_def parse_tags_def parse_rest_def reserved_def)
  done

lemma underscore_key_char: "key_char CHR ''_''"
  by (simp add: key_char_def)

lemma colon_not_key_char: "\<not> key_char CHR '':''"
  by (simp add: key_char_def less_eq_char_def)

lemma replaced_key_chars: "list_all key_char (map (\<lambda>c. if key_char c then c else CHR ''_'') xs)"
  by (induction xs) (simp_all add: underscore_key_char)

lemma sanitizeKey_no_colon:
  assumes "sanitizeKey raw = Returns s"
  shows "s \<noteq> [] \<and> no_colon s \<and> list_all key_char s"
proof -
  let ?m = "map (\<lambda>c. if key_char c then c else CHR ''_'') (trim raw)"
  from assms have s: "s = ?m" "?m \<noteq> []"
    by (auto simp: sanitizeKey_def Let_def split: if_splits)
  have kc: "list_all key_char s"
    unfolding s(1) by (rule replaced_key_chars)
  have "CHR '':'' \<notin> set s"
  proof
    assume "CHR '':'' \<in> set s"
    with kc have "key_char CHR '':''" by (simp add: list_all_iff)
    with colon_not_key_char show False by simp
  qed
  with s kc show ?thesis by (simp add: no_colon_def)
qed

lemma parse_parts: "parse s = parse_parts (split_on CHR '':'' s)"
  by (simp add: parse_def parse_parts_def Let_def)

lemma version_kept:
  "version (fst (parse_namespace ps st)) = version (fst st)"
  "version (fst (parse_tenant ps st)) = version (fst st)"
  "version (fst (parse_user ps st)) = version (fst st)"
  "version (fst (parse_tags ps st)) = version (fst st)"
  "version (parse_rest ps st) = version (fst st)"
  by (cases st; simp add: parse_namespace_def parse_tenant_def parse_user_def parse_tags_def
      parse_rest_def Let_def)+

lemma namespace_kept:
  "namespace (fst (parse_tenant ps st)) = namespace (fst st)"
  "namespace (fst (parse_user ps st)) = namespace (fst st)"
  "namespace (fst (parse_tags ps st)) = namespace (fst st)"
  "namespace (parse_rest ps st) = namespace (fst st)"
  by (cases st; simp add: parse_tenant_def parse_user_def parse_tags_def parse_rest_def Let_def)+

lemma parsed_version:
  "version (parse_parts (p # ps)) = (if startsWith p ''v'' then Some p else None)"
  by (simp add: parse_parts_def version_kept parse_version_def)

lemma parsed_namespace:
  "namespace (parse_parts (p # ps)) =
     (let i = (if startsWith p ''v'' then 1 else 0 :: nat)
      in if i < length (p # ps) \<and> \<not> reserved ((p # ps) ! i) \<and> i + 1 < length (p # ps)
         then Some ((p # ps) ! i) else None)"
  by (auto simp add: parse_parts_def namespace_kept parse_version_def parse_namespace_def
      reserved_def Let_def)

lemma segments_Cons: "\<exists>p ps. segments k = p # ps"
  by (cases "segments k") (auto simp: segments_def)

lemma forced_version:
  assumes "parse_parts (segments k) = k\<lparr>tags := sort (tags k)\<rparr>"
  shows "(case version k of None \<Rightarrow> True | Some v \<Rightarrow> startsWith v ''v'')"
    and "version k = None \<Longrightarrow> namespace k = Some n \<Longrightarrow> \<not> startsWith n ''v''"
    and "version k = None \<and> namespace k = None \<and> tenantId k = None \<and> userId k = None
          \<and> tags k = [] \<longrightarrow> \<not> startsWith (key k) ''v''"
proof -
  obtain p ps where seg: "segments k = p # ps" using segments_Cons by blast
  from assms have "version (parse_parts (segments k)) = version k" by simp
  then have v: "version k = (if startsWith p ''v'' then Some p else None)"
    unfolding seg parsed_version by simp
  show "(case version k of None \<Rightarrow> True | Some v \<Rightarrow> startsWith v ''v'')"
    using v by (auto split: option.splits if_splits)
  show "\<not> startsWith n ''v''" if "version k = None" "namespace k = Some n"
    using v that seg by (auto simp: segments_def split: if_splits)
  show "version k = None \<and> namespace k = None \<and> tenantId k = None \<and> userId k = None
          \<and> tags k = [] \<longrightarrow> \<not> startsWith (key k) ''v''"
    using v seg by (auto simp: segments_def split: if_splits)
qed

lemma forced_namespace:
  assumes "parse_parts (segments k) = k\<lparr>tags := sort (tags k)\<rparr>" and "namespace k = Some n"
  shows "\<not> reserved n"
proof
  assume r: "reserved n"
  obtain p ps where seg: "segments k = p # ps" using segments_Cons by blast
  from assms have ns: "namespace (parse_parts (segments k)) = Some n" by simp
  from forced_version(1) [OF assms(1)]
  have fv: "(case version k of None \<Rightarrow> True | Some v \<Rightarrow> startsWith v ''v'')" .
  have nv: "\<not> startsWith n ''v''"
    using r by (auto simp: reserved_def)
  show False
  proof (cases "version k")
    case None
    with assms(2) seg have "p = n" by (simp add: segments_def)
    with ns r nv show False unfolding seg parsed_namespace by (simp add: Let_def)
  next
    case (Some v)
    with assms(2) seg fv obtain qs where "p = v" "ps = n # qs" "startsWith v ''v''"
      by (auto simp: segments_def)
    with ns r show False unfolding seg parsed_namespace by (simp add: Let_def)
  qed
qed


lemmas parse_parts_steps = segments_def parse_parts_def parse_version_def parse_namespace_def
  parse_tenant_def parse_user_def parse_tags_def parse_rest_def Let_def reserved_def

lemma forced_marker:
  assumes rt: "parse_parts (segments k) = k\<lparr>tags := sort (tags k)\<rparr>"
  shows "key k = ''tenant'' \<longrightarrow> tenantId k \<noteq> None \<or> userId k \<noteq> None \<or> tags k \<noteq> []"
    and "key k = ''user'' \<longrightarrow> userId k \<noteq> None \<or> tags k \<noteq> []"
    and "key k = ''tags'' \<longrightarrow> tags k \<noteq> []"
proof -
  note fv = forced_version(1,2) [OF rt]
  note fn = forced_namespace [OF rt]
  from rt have kk: "key (parse_parts (segments k)) = key k" by simp
  show "key k = ''tenant'' \<longrightarrow> tenantId k \<noteq> None \<or> userId k \<noteq> None \<or> tags k \<noteq> []"
  proof (intro impI, rule ccontr)
    assume "key k = ''tenant''" "\<not> (tenantId k \<noteq> None \<or> userId k \<noteq> None \<or> tags k \<noteq> [])"
    with kk fv fn show False
      by (cases "version k"; cases "namespace k"; simp add: parse_parts_steps)
  qed
  show "key k = ''user'' \<longrightarrow> userId k \<noteq> None \<or> tags k \<noteq> []"
  proof (intro impI, rule ccontr)
    assume "key k = ''user''" "\<not> (userId k \<noteq> None \<or> tags k \<noteq> [])"
    with kk fv fn show False
      by (cases "version k"; cases "namespace k"; cases "tenantId k"; simp add: parse_parts_steps)
  qed
  show "key k = ''tags'' \<longrightarrow> tags k \<noteq> []"
  proof (intro impI, rule ccontr)
    assume "key k = ''tags''" "\<not> tags k \<noteq> []"
    with kk fv fn show False
      by (cases "version k"; cases "namespace k"; cases "tenantId k"; cases "userId k";
          simp add: parse_parts_steps)
  qed
qed

text \<open>
  The conditions of \<open>parseable\<close> on the words of a key are all needed: a key with well-formed
  fields that \<open>parse\<close> gives back from its canonical string is \<open>parseable\<close>.
\<close>

lemma parseable_exact:
  assumes "plain_fields k" and "parse (fst (toString k)) = k\<lparr>tags := sort (tags k)\<rparr>"
  shows "parseable k"
proof -
  from assms have rt: "parse_parts (segments k) = k\<lparr>tags := sort (tags k)\<rparr>"
    by (simp add: parse_parts split_toString)
  note fv = forced_version [OF rt]
  note fn = forced_namespace [OF rt]
  note fm = forced_marker [OF rt]
  from assms(1) fv fn fm show ?thesis
    unfolding parseable_def plain_fields_def by (auto split: option.splits)
qed

text \<open>
  Claim C3, as amended. For every CacheKey whose fields hold no separator, whose present
  fields are not empty, whose version (if any) starts with \<open>v\<close>, whose namespace (if any)
  is none of \<open>tenant\<close>, \<open>user\<close>, \<open>tags\<close>, whose tags hold no comma, where, no version being
  given, what stands first in the string (the namespace, or the key when it stands alone)
  does not start with \<open>v\<close>, and whose key is \<open>tenant\<close> only if a tenant, a user or tags are
  present, \<open>user\<close> only if a user or tags are present, and \<open>tags\<close> only if tags are present:
  the canonical string has exactly the segments of the fields that are present, and
  parsing it yields the key with its tags sorted, which is the state \<open>toString\<close> leaves its
  argument in; so \<open>parse(toString(k)) = k\<close> when the tags of \<open>k\<close> are sorted.
\<close>

theorem parse_toString_round_trip:
  assumes "parseable k"
  shows "split_on CHR '':'' (fst (toString k)) = segments k
         \<and> parse (fst (toString k)) = snd (toString k)
         \<and> snd (toString k) = k\<lparr>tags := sort (tags k)\<rparr>
         \<and> (sort (tags k) = tags k \<longrightarrow> parse (fst (toString k)) = k)"
proof -
  have a: "split_on CHR '':'' (fst (toString k)) = segments k"
    using parseable_plain [OF assms] by (rule split_toString)
  have b: "snd (toString k) = k\<lparr>tags := sort (tags k)\<rparr>"
    by (simp add: toString_def Let_def)
  have c: "parse (fst (toString k)) = k\<lparr>tags := sort (tags k)\<rparr>"
    unfolding parse_def Let_def a using assms by (rule parse_segments)
  from a b c show ?thesis by simp
qed

theorem parse_toString_round_trip_witness:
  "parseable complex_key
   \<and> fst (toString complex_key) =
       ''v2:test-namespace:tenant:tenant-123:user:user-456:tags:tag1,tag2:test-key''
   \<and> parse (fst (toString complex_key)) = complex_key\<lparr>tags := [''tag1'', ''tag2'']\<rparr>
   \<and> parse (fst (toString (complex_key\<lparr>tags := [''tag1'', ''tag2'']\<rparr>))) =
       complex_key\<lparr>tags := [''tag1'', ''tag2'']\<rparr>
   \<and> parseable marker_key
   \<and> fst (toString marker_key) = ''user:u1:tenant''
   \<and> parse (fst (toString marker_key)) = marker_key"
proof -
  have tag_order: "''tag1'' \<le> ''tag2''" "\<not> ''tag2'' \<le> ''tag1''"
    by (simp_all add: less_eq_char_def)
  have p: "parseable complex_key"
    by (simp add: parseable_def complex_key_def no_colon_def reserved_def)
  have p': "parseable (complex_key\<lparr>tags := [''tag1'', ''tag2'']\<rparr>)"
    by (simp add: parseable_def complex_key_def no_colon_def reserved_def)
  have s: "sort (tags complex_key) = [''tag1'', ''tag2'']"
    using tag_order by (simp add: complex_key_def)
  have s': "sort (tags (complex_key\<lparr>tags := [''tag1'', ''tag2'']\<rparr>)) =
              tags (complex_key\<lparr>tags := [''tag1'', ''tag2'']\<rparr>)"
    using tag_order by simp
  have str: "fst (toString complex_key) =
       ''v2:test-namespace:tenant:tenant-123:user:user-456:tags:tag1,tag2:test-key''"
    using tag_order by (simp add: toString_def complex_key_def Let_def)
  from parse_toString_round_trip [OF p] s
  have r: "parse (fst (toString complex_key)) = complex_key\<lparr>tags := [''tag1'', ''tag2'']\<rparr>"
    by simp
  from parse_toString_round_trip [OF p'] s'
  have r': "parse (fst (toString (complex_key\<lparr>tags := [''tag1'', ''tag2'']\<rparr>))) =
       complex_key\<lparr>tags := [''tag1'', ''tag2'']\<rparr>"
    by blast
  have q: "parseable marker_key"
    by (simp add: parseable_def marker_key_def no_colon_def)
  have qs: "sort (tags marker_key) = tags marker_key"
    by (simp add: marker_key_def)
  have qstr: "fst (toString marker_key) = ''user:u1:tenant''"
    by (simp add: toString_def marker_key_def Let_def)
  from parse_toString_round_trip [OF q] qs
  have qr: "parse (fst (toString marker_key)) = marker_key"
    by blast
  from p str r r' q qstr qr show ?thesis by blast
qed

text \<open>
  The claim C3 as written fails: \<open>create('value')\<close> is a valid key, the sanitization leaves
  it as it is, its canonical string is \<open>value\<close>, and \<open>parse\<close> reads that string as a version
  with an empty key.
\<close>

theorem parse_toString_counterexample:
  "create ''value'' None = Returns value_key
   \<and> fst (toString value_key) = ''value''
   \<and> parse (fst (toString value_key)) =
       \<lparr> key = [], namespace = None, version = Some ''value'', tenantId = None, userId = None,
         tags = [] \<rparr>
   \<and> parse (fst (toString value_key)) \<noteq> value_key"
  by (simp add: create_def sanitizeKey_def trim_def is_whitespace_def key_char_def less_eq_char_def
      value_key_def toString_def parse_def parse_version_def parse_namespace_def parse_tenant_def
      parse_user_def parse_tags_def parse_rest_def Let_def)


end
